theory Spec2Isabelle
  imports Main
begin

section \<open>Data model (app/models/schemas.py)\<close>

text \<open>
  The pydantic models become records, the string enum a datatype. Python's unbounded
  integers are \<open>int\<close>. A \<open>datetime\<close> is an opaque clock reading: every
  \<open>datetime.now()\<close> of the source is an extra argument of the function that
  calls it. Field names are those of the source; where two models share a field name the
  later one carries a prefix.
\<close>

datatype QuestionCategory =
    INTRODUCTION
  | MOTIVATION
  | INDUSTRY_EXPERIENCE
  | LEARNINGS
  | STRENGTHS_WEAKNESSES
  | FUTURE_VISION
  | UNIQUE_VALUE
  | AVAILABILITY

type_synonym datetime = nat

section \<open>Values parsed from JSON\<close>

text \<open>
  What \<open>json.loads\<close> returns: \<open>None\<close>, a boolean, an integer, a float, a string, a
  list or a dictionary. A finite float is a mantissa and a binary exponent. A dictionary is
  the list of its items, and the first item of a key counts. \<open>py_truthy\<close> is the
  truth value Python gives a value in \<open>if\<close>, \<open>or\<close> and \<open>not\<close>, and
  \<open>dict_get\<close> is \<open>d.get(key, default)\<close> on the result of the lookup.
\<close>

datatype pyfloat = Finite int int | Infinite | NaN

datatype json =
    JNull
  | JBool bool
  | JInt int
  | JFloat pyfloat
  | JString string
  | JArray "json list"
  | JObject "(string \<times> json) list"

fun py_truthy :: "json \<Rightarrow> bool" where
  "py_truthy JNull = False"
| "py_truthy (JBool b) = b"
| "py_truthy (JInt n) = (n \<noteq> 0)"
| "py_truthy (JFloat (Finite m e)) = (m \<noteq> 0)"
| "py_truthy (JFloat Infinite) = True"
| "py_truthy (JFloat NaN) = True"
| "py_truthy (JString s) = (s \<noteq> [])"
| "py_truthy (JArray xs) = (xs \<noteq> [])"
| "py_truthy (JObject items) = (items \<noteq> [])"

definition dict_get :: "'a option \<Rightarrow> 'a \<Rightarrow> 'a" where
  "dict_get entry fallback = (case entry of None \<Rightarrow> fallback | Some x \<Rightarrow> x)"

record InterviewQuestion =
  category :: QuestionCategory
  question_text :: string
  expected_coverage :: "string list option"
  follow_up_prompts :: "string list option"

record InterviewAnswer =
  question_category :: QuestionCategory
  answer_question_text :: string
  answer_text :: string
  follow_up_count :: int
  is_complete :: json
  timestamp :: datetime

record InterviewState =
  session_id :: string
  current_question_index :: int
  answers :: "InterviewAnswer list"
  is_completed :: bool
  started_at :: datetime
  completed_at :: "datetime option"



text \<open>The exceptions of the modelled code paths.\<close>

datatype error =
    IndexError
  | AttributeError
  | JSONDecodeError
  | ValidationError
  | WebSocketDisconnect

section \<open>Question catalog (InterviewerAgent.QUESTIONS)\<close>

definition QUESTIONS :: "InterviewQuestion list" where
  "QUESTIONS =
    [ \<lparr> category = INTRODUCTION,
        question_text = ''Tell me something about yourself (Include your name, family background, educational background, and whether you are an earning member of the family.)'',
        expected_coverage = Some [''name'', ''family background'', ''educational background'', ''earning member status''],
        follow_up_prompts = None \<rparr>,
      \<lparr> category = MOTIVATION,
        question_text = ''What motivated you to pursue a career in this field?'',
        expected_coverage = None,
        follow_up_prompts = None \<rparr>,
      \<lparr> category = INDUSTRY_EXPERIENCE,
        question_text = ''How many internships or industrial training programs have you completed so far? (Please include the names, durations, and the departments where you were trained.)'',
        expected_coverage = Some [''number of internships'', ''names of organizations'', ''durations'', ''departments''],
        follow_up_prompts = None \<rparr>,
      \<lparr> category = LEARNINGS,
        question_text = ''Tell me five things you have learned from the internships'',
        expected_coverage = None,
        follow_up_prompts = None \<rparr>,
      \<lparr> category = STRENGTHS_WEAKNESSES,
        question_text = ''Tell me two positive qualities about yourself and two areas where you think you need improvement.'',
        expected_coverage = None,
        follow_up_prompts = None \<rparr>,
      \<lparr> category = FUTURE_VISION,
        question_text = ''Where do you see yourself in five years?'',
        expected_coverage = None,
        follow_up_prompts = None \<rparr>,
      \<lparr> category = UNIQUE_VALUE,
        question_text = ''Give me a strong reason why I should hire you and how you are different from other candidates.'',
        expected_coverage = None,
        follow_up_prompts = None \<rparr>,
      \<lparr> category = AVAILABILITY,
        question_text = ''Are you available to start work immediately, or do you need time to complete other commitments?'',
        expected_coverage = None,
        follow_up_prompts = None \<rparr> ]"

definition max_follow_ups :: int where
  "max_follow_ups = 2"

text \<open>
  Python's \<open>xs[i]\<close> on a list: an index below zero counts from the end, and an index
  outside \<open>-len(xs) .. len(xs) - 1\<close> raises IndexError.
\<close>

definition list_getitem :: "'a list \<Rightarrow> int \<Rightarrow> error + 'a" where
  "list_getitem xs i =
     (if i < - int (length xs) \<or> int (length xs) \<le> i then Inl IndexError
      else if i < 0 then Inr (xs ! nat (int (length xs) + i))
      else Inr (xs ! nat i))"

text \<open>
  \<open>get_current_question\<close>: only the upper end of the range is guarded; every other
  index goes to the list subscript.
\<close>

definition get_current_question :: "InterviewState \<Rightarrow> error + InterviewQuestion option" where
  "get_current_question st =
     (if current_question_index st \<ge> int (length QUESTIONS) then Inr None
      else (case list_getitem QUESTIONS (current_question_index st) of
              Inl e \<Rightarrow> Inl e
            | Inr q \<Rightarrow> Inr (Some q)))"

section \<open>Completeness oracle (GeminiService.validate_answer_completeness)\<close>

text \<open>
  The language model and the JSON library are outside the repository. One call of the
  model is an \<open>llm_outcome\<close> supplied by the environment: the call raises, or it
  returns a text. The cleaning of that text (\<open>strip\<close>, two \<open>re.sub\<close>) followed by
  \<open>json.loads\<close> is a parameter \<open>loads\<close> of the model: \<open>None\<close> when it raises,
  otherwise the parsed value, of any JSON type and with any entries. The prompt only feeds
  the model and is not represented.
\<close>

datatype llm_outcome = LlmRaises | LlmContent string

definition default_validation :: json where
  "default_validation =
     JObject [(''is_complete'', JBool True), (''missing_points'', JArray []),
              (''follow_up'', JString [])]"

definition validate_answer_completeness ::
    "(string \<Rightarrow> json option) \<Rightarrow> llm_outcome \<Rightarrow> json" where
  "validate_answer_completeness loads out =
     (case out of
        LlmRaises \<Rightarrow> default_validation
      | LlmContent c \<Rightarrow>
          (case loads c of
             None \<Rightarrow> default_validation
           | Some result \<Rightarrow> result))"

section \<open>Answer aggregation (InterviewerAgent._get_or_create_answer)\<close>

text \<open>
  The loop with \<open>break\<close> finds the first record of the category; the model returns its
  position. The source hands the record out by reference and the caller mutates it, so
  the model returns the position in \<open>state.answers\<close> together with the updated state,
  and every later write to the record is a list update at that position.
\<close>

fun find_existing :: "InterviewAnswer list \<Rightarrow> QuestionCategory \<Rightarrow> nat option" where
  "find_existing [] c = None"
| "find_existing (a # as) c =
     (if question_category a = c then Some 0 else map_option Suc (find_existing as c))"

definition update_answer ::
    "nat \<Rightarrow> (InterviewAnswer \<Rightarrow> InterviewAnswer) \<Rightarrow> InterviewState \<Rightarrow> InterviewState" where
  "update_answer i f st = st\<lparr>answers := (answers st)[i := f (answers st ! i)]\<rparr>"

definition get_or_create_answer ::
    "InterviewState \<Rightarrow> InterviewQuestion \<Rightarrow> string \<Rightarrow> datetime \<Rightarrow> nat \<times> InterviewState" where
  "get_or_create_answer st question new_answer_text now =
     (case find_existing (answers st) (category question) of
        Some i \<Rightarrow>
          (i, update_answer i (\<lambda>a. a\<lparr>answer_text := answer_text a @ '' '' @ new_answer_text\<rparr>) st)
      | None \<Rightarrow>
          (length (answers st),
           st\<lparr>answers := answers st @
              [\<lparr> question_category = category question,
                 answer_question_text = question_text question,
                 answer_text = new_answer_text,
                 follow_up_count = 0,
                 is_complete = JBool False,
                 timestamp = now \<rparr>]\<rparr>))"

section \<open>Turn controller (InterviewerAgent.validate_and_respond)\<close>

text \<open>
  The answer record's \<open>is_complete\<close> receives whatever value the oracle's dictionary
  holds under that key (the assignment is not validated), and the branch is taken on its
  truth value. The message of a follow-up is whatever the dictionary holds under
  \<open>follow_up\<close>; the other messages are strings. A value that is no dictionary has no
  \<open>get\<close>: AttributeError.
\<close>

datatype action = NextQuestion | FollowUp | Complete

record response =
  r_action :: action
  r_message :: json
  r_state :: InterviewState
  r_question_category :: "QuestionCategory option"

definition validate_and_respond ::
    "(string \<Rightarrow> json option) \<Rightarrow> InterviewState \<Rightarrow> string \<Rightarrow> llm_outcome \<Rightarrow>
     datetime \<Rightarrow> error + response" where
  "validate_and_respond loads st user_answer out now =
     (case get_current_question st of
        Inl e \<Rightarrow> Inl e
      | Inr None \<Rightarrow>
          Inr \<lparr> r_action = Complete,
                r_message = JString ''Thank you for completing all the questions!'',
                r_state = st,
                r_question_category = None \<rparr>
      | Inr (Some current_question) \<Rightarrow>
          (case get_or_create_answer st current_question user_answer now of
             (i, st1) \<Rightarrow>
               (case validate_answer_completeness loads out of
                  JObject validation \<Rightarrow>
                    (let verdict = dict_get (map_of validation ''is_complete'') (JBool True);
                         st2 = update_answer i (\<lambda>a. a\<lparr>is_complete := verdict\<rparr>) st1
                     in if py_truthy (is_complete (answers st2 ! i))
                           \<or> follow_up_count (answers st2 ! i) \<ge> max_follow_ups
                        then
                          (let st3 = st2\<lparr>current_question_index := current_question_index st2 + 1\<rparr>
                           in case get_current_question st3 of
                                Inl e \<Rightarrow> Inl e
                              | Inr (Some next_question) \<Rightarrow>
                                  Inr \<lparr> r_action = NextQuestion,
                                        r_message = JString (question_text next_question),
                                        r_state = st3,
                                        r_question_category = Some (category next_question) \<rparr>
                              | Inr None \<Rightarrow>
                                  Inr \<lparr> r_action = Complete,
                                        r_message = JString ''Thank you for completing all the questions! I'm now preparing your feedback.'',
                                        r_state = st3\<lparr>is_completed := True\<rparr>,
                                        r_question_category = None \<rparr>)
                        else
                          (let st3 = update_answer i
                                       (\<lambda>a. a\<lparr>follow_up_count := follow_up_count a + 1\<rparr>) st2
                           in Inr \<lparr> r_action = FollowUp,
                                    r_message = dict_get (map_of validation ''follow_up'')
                                                  (JString ''Could you tell me more about that?''),
                                    r_state = st3,
                                    r_question_category = Some (category current_question) \<rparr>))
                | _ \<Rightarrow> Inl AttributeError)))"

text \<open>
  A session starts as the websocket handler creates it (main.py): index 0, no answers.
  \<open>process_turns\<close> runs the controller over a sequence of turns, each with the answer
  text, the model's outcome for that turn and the clock; an exception ends the run.
\<close>

definition new_session :: "string \<Rightarrow> datetime \<Rightarrow> InterviewState" where
  "new_session sid now =
     \<lparr> session_id = sid, current_question_index = 0, answers = [], is_completed = False,
       started_at = now, completed_at = None \<rparr>"

fun process_turns ::
    "(string \<Rightarrow> json option) \<Rightarrow> InterviewState \<Rightarrow>
     (string \<times> llm_outcome \<times> datetime) list \<Rightarrow> error + InterviewState" where
  "process_turns loads st [] = Inr st"
| "process_turns loads st ((user_answer, out, now) # turns) =
     (case validate_and_respond loads st user_answer out now of
        Inl e \<Rightarrow> Inl e
      | Inr r \<Rightarrow> process_turns loads (r_state r) turns)"

section \<open>Feedback compilation (services/feedback_service.py)\<close>



definition py_replace_char :: "char \<Rightarrow> char \<Rightarrow> string \<Rightarrow> string" where
  "py_replace_char old new s = map (\<lambda>c. if c = old then new else c) s"

definition is_ascii_lower :: "char \<Rightarrow> bool" where
  "is_ascii_lower c \<longleftrightarrow> 97 \<le> (of_char c :: nat) \<and> (of_char c :: nat) \<le> 122"

definition is_ascii_upper :: "char \<Rightarrow> bool" where
  "is_ascii_upper c \<longleftrightarrow> 65 \<le> (of_char c :: nat) \<and> (of_char c :: nat) \<le> 90"

definition ascii_to_upper :: "char \<Rightarrow> char" where
  "ascii_to_upper c = (if is_ascii_lower c then char_of ((of_char c :: nat) - 32) else c)"

definition ascii_to_lower :: "char \<Rightarrow> char" where
  "ascii_to_lower c = (if is_ascii_upper c then char_of ((of_char c :: nat) + 32) else c)"

fun py_title_from :: "bool \<Rightarrow> string \<Rightarrow> string" where
  "py_title_from previous_is_cased [] = []"
| "py_title_from previous_is_cased (c # cs) =
     (if is_ascii_lower c then
        (if previous_is_cased then c else ascii_to_upper c) # py_title_from True cs
      else if is_ascii_upper c then
        (if previous_is_cased then ascii_to_lower c else c) # py_title_from True cs
      else c # py_title_from False cs)"

definition py_title :: "string \<Rightarrow> string" where
  "py_title s = py_title_from False s"

fun category_value :: "QuestionCategory \<Rightarrow> string" where
  "category_value INTRODUCTION = ''introduction''"
| "category_value MOTIVATION = ''motivation''"
| "category_value INDUSTRY_EXPERIENCE = ''industry_experience''"
| "category_value LEARNINGS = ''learnings''"
| "category_value STRENGTHS_WEAKNESSES = ''strengths_weaknesses''"
| "category_value FUTURE_VISION = ''future_vision''"
| "category_value UNIQUE_VALUE = ''unique_value''"
| "category_value AVAILABILITY = ''availability''"







section \<open>Websocket handler (main.py, interview_websocket)\<close>


text \<open>
  The handler owns one session, from after \<open>websocket.accept()\<close>. What it does to the
  outside is kept as a trace of effects, in order: the messages sent (type and content; the
  error notice of the \<open>except\<close> clause carries the exception, its text being
  "An error occurred: " and the exception's own text; the FEEDBACK message carries the
  feedback value, its formatted text is not represented), the calls of
  \<open>storage.save_session\<close> with the state and feedback saved, and the calls of
  \<open>feedback_service.generate_feedback\<close> with their arguments. \<open>save_session\<close>
  catches its own exceptions and its result is ignored by the source.
\<close>

datatype MessageType = QUESTION | ANSWER | FEEDBACK | ERROR | STATUS | SESSION_START | SESSION_END





















section \<open>Invariants of a session\<close>

definition answers_ok :: "InterviewAnswer list \<Rightarrow> bool" where
  "answers_ok xs \<longleftrightarrow>
     list_all (\<lambda>a. 0 \<le> follow_up_count a \<and> follow_up_count a \<le> max_follow_ups) xs
     \<and> distinct (map question_category xs)"

definition session_inv :: "InterviewState \<Rightarrow> bool" where
  "session_inv st \<longleftrightarrow>
     0 \<le> current_question_index st
     \<and> current_question_index st \<le> int (length QUESTIONS)
     \<and> answers_ok (answers st)
     \<and> (current_question_index st < int (length QUESTIONS) \<or> is_completed st)"




section \<open>The log of a run of turns\<close>

text \<open>
  For counting the turns a question takes: the log of a run lists, for every turn the
  controller answered, the cursor before the turn and the action it emitted. The run stops
  where the controller raises.
\<close>

fun turn_log ::
    "(string \<Rightarrow> json option) \<Rightarrow> InterviewState \<Rightarrow>
     (string \<times> llm_outcome \<times> datetime) list \<Rightarrow> (int \<times> action) list" where
  "turn_log loads st [] = []"
| "turn_log loads st ((user_answer, out, now) # turns) =
     (case validate_and_respond loads st user_answer out now of
        Inl e \<Rightarrow> []
      | Inr r \<Rightarrow> (current_question_index st, r_action r) # turn_log loads (r_state r) turns)"

definition turns_at :: "int \<Rightarrow> (int \<times> action) list \<Rightarrow> nat" where
  "turns_at k log = length (filter (\<lambda>(j, a). j = k) log)"

definition follow_ups_at :: "int \<Rightarrow> (int \<times> action) list \<Rightarrow> nat" where
  "follow_ups_at k log = length (filter (\<lambda>(j, a). j = k \<and> a = FollowUp) log)"

text \<open>
  The follow-ups the question at position \<open>k\<close> may still receive in a state, and the
  fact that only questions up to the cursor have a record.
\<close>

definition follow_ups_left :: "InterviewState \<Rightarrow> int \<Rightarrow> int" where
  "follow_ups_left st k =
     (case find_existing (answers st) (category (QUESTIONS ! nat k)) of
        None \<Rightarrow> max_follow_ups
      | Some i \<Rightarrow> max_follow_ups - follow_up_count (answers st ! i))"

definition asked_inv :: "InterviewState \<Rightarrow> bool" where
  "asked_inv st \<longleftrightarrow>
     list_all (\<lambda>a. question_category a
                  \<in> set (map category (take (nat (current_question_index st) + 1) QUESTIONS)))
       (answers st)"

section \<open>The catalog and its lookup\<close>

lemma length_QUESTIONS: "length QUESTIONS = 8"
  by (simp add: QUESTIONS_def)

lemma categories_QUESTIONS:
  "map category QUESTIONS =
     [INTRODUCTION, MOTIVATION, INDUSTRY_EXPERIENCE, LEARNINGS, STRENGTHS_WEAKNESSES,
      FUTURE_VISION, UNIQUE_VALUE, AVAILABILITY]"
  by (simp add: QUESTIONS_def)

lemma get_current_question_cases:
  "get_current_question st =
     (if 8 \<le> current_question_index st then Inr None
      else if 0 \<le> current_question_index st
        then Inr (Some (QUESTIONS ! nat (current_question_index st)))
      else if - 8 \<le> current_question_index st
        then Inr (Some (QUESTIONS ! nat (8 + current_question_index st)))
      else Inl IndexError)"
  by (simp add: get_current_question_def list_getitem_def length_QUESTIONS)

section \<open>The aggregator\<close>

lemma find_existing_Some:
  "find_existing xs c = Some i \<Longrightarrow> i < length xs \<and> question_category (xs ! i) = c"
  by (induction xs arbitrary: i) (auto split: if_splits)

lemma find_existing_None:
  "find_existing xs c = None \<longleftrightarrow> c \<notin> set (map question_category xs)"
  by (induction xs) auto

lemma update_answer_simps:
  "answers (update_answer i f st) = (answers st)[i := f (answers st ! i)]"
  "current_question_index (update_answer i f st) = current_question_index st"
  "is_completed (update_answer i f st) = is_completed st"
  "session_id (update_answer i f st) = session_id st"
  "started_at (update_answer i f st) = started_at st"
  "completed_at (update_answer i f st) = completed_at st"
  by (simp_all add: update_answer_def)

lemma answers_ok_update:
  assumes "answers_ok xs" and "i < length xs"
    and "question_category (f (xs ! i)) = question_category (xs ! i)"
    and "0 \<le> follow_up_count (f (xs ! i))" and "follow_up_count (f (xs ! i)) \<le> max_follow_ups"
  shows "answers_ok (xs[i := f (xs ! i)])"
proof -
  have "map question_category (xs[i := f (xs ! i)]) = map question_category xs"
    using assms(2,3) by (simp add: map_update list_update_same_conv)
  moreover have "list_all (\<lambda>a. 0 \<le> follow_up_count a \<and> follow_up_count a \<le> max_follow_ups)
                   (xs[i := f (xs ! i)])"
    using assms unfolding answers_ok_def list_all_iff
    by (auto dest!: set_update_subset_insert[THEN subsetD])
  ultimately show ?thesis using assms(1) by (simp add: answers_ok_def)
qed

lemma get_or_create_answer_props:
  assumes "get_or_create_answer st q t now = (i, st1)"
  shows "i < length (answers st1)"
    and "question_category (answers st1 ! i) = category q"
    and "current_question_index st1 = current_question_index st"
    and "is_completed st1 = is_completed st"
    and "completed_at st1 = completed_at st"
    and "answers_ok (answers st) \<Longrightarrow> answers_ok (answers st1)"
proof -
  show "i < length (answers st1)"
    using assms
    by (auto simp: get_or_create_answer_def update_answer_simps split: option.splits
          dest: find_existing_Some)
  show "question_category (answers st1 ! i) = category q"
    using assms
    by (auto simp: get_or_create_answer_def update_answer_simps split: option.splits
          dest: find_existing_Some)
  show "current_question_index st1 = current_question_index st"
    using assms by (auto simp: get_or_create_answer_def update_answer_simps split: option.splits)
  show "is_completed st1 = is_completed st"
    using assms by (auto simp: get_or_create_answer_def update_answer_simps split: option.splits)
  show "completed_at st1 = completed_at st"
    using assms by (auto simp: get_or_create_answer_def update_answer_simps split: option.splits)
  show "answers_ok (answers st1)" if ok: "answers_ok (answers st)"
  proof (cases "find_existing (answers st) (category q)")
    case None
    then have "answers st1 = answers st @ [\<lparr> question_category = category q,
                 answer_question_text = question_text q, answer_text = t,
                 follow_up_count = 0, is_complete = JBool False, timestamp = now \<rparr>]"
      using assms by (auto simp: get_or_create_answer_def)
    then show ?thesis using ok None
      by (simp add: answers_ok_def find_existing_None max_follow_ups_def)
  next
    case (Some j)
    then have "answers st1 =
        (answers st)[j := (answers st ! j)\<lparr>answer_text := answer_text (answers st ! j) @ '' '' @ t\<rparr>]"
      using assms by (auto simp: get_or_create_answer_def update_answer_simps)
    moreover have "j < length (answers st)" using Some by (simp add: find_existing_Some)
    ultimately show ?thesis using ok
      answers_ok_update[of "answers st" j "\<lambda>a. a\<lparr>answer_text := answer_text a @ '' '' @ t\<rparr>"]
      by (simp add: answers_ok_def list_all_length)
  qed
qed

section \<open>One turn keeps the invariant\<close>

lemma session_inv_new_session: "session_inv (new_session sid now)"
  by (simp add: session_inv_def new_session_def answers_ok_def length_QUESTIONS)

lemma validate_and_respond_inv:
  assumes inv: "session_inv st"
    and res: "validate_and_respond loads st user_answer out now = Inr r"
  shows "session_inv (r_state r)
       \<and> (current_question_index (r_state r) = current_question_index st
          \<or> current_question_index (r_state r) = current_question_index st + 1)"
proof (cases "8 \<le> current_question_index st")
  case True
  then have "r_state r = st"
    using res by (auto simp: validate_and_respond_def get_current_question_cases)
  then show ?thesis using inv by simp
next
  case False
  with inv have rng: "0 \<le> current_question_index st" "current_question_index st < 8"
    by (simp_all add: session_inv_def)
  define q where "q = QUESTIONS ! nat (current_question_index st)"
  have cur: "get_current_question st = Inr (Some q)"
    using rng by (simp add: get_current_question_cases q_def)
  obtain i st1 where goc: "get_or_create_answer st q user_answer now = (i, st1)"
    by (cases "get_or_create_answer st q user_answer now")
  note p = get_or_create_answer_props[OF goc]
  have ok1: "answers_ok (answers st1)" using p(6) inv by (simp add: session_inv_def)
  obtain d where v: "validate_answer_completeness loads out = JObject d"
    using res cur goc
    by (cases "validate_answer_completeness loads out") (auto simp: validate_and_respond_def)
  define verdict where "verdict = dict_get (map_of d ''is_complete'') (JBool True)"
  define st2 where "st2 = update_answer i (\<lambda>a. a\<lparr>is_complete := verdict\<rparr>) st1"
  have ok2: "answers_ok (answers st2)"
    using answers_ok_update[of "answers st1" i "\<lambda>a. a\<lparr>is_complete := verdict\<rparr>"] ok1 p(1)
    by (simp add: st2_def answers_ok_def list_all_length update_answer_simps)
  have len2: "i < length (answers st2)" using p(1) by (simp add: st2_def update_answer_simps)
  have idx2: "current_question_index st2 = current_question_index st"
    using p(3) by (simp add: st2_def update_answer_simps)
  show ?thesis
  proof (cases "py_truthy (is_complete (answers st2 ! i)) \<or> follow_up_count (answers st2 ! i) \<ge> max_follow_ups")
    case True
    define st3 where "st3 = st2\<lparr>current_question_index := current_question_index st2 + 1\<rparr>"
    have eq: "validate_and_respond loads st user_answer out now =
        (case get_current_question st3 of
           Inl e \<Rightarrow> Inl e
         | Inr (Some next_question) \<Rightarrow>
             Inr \<lparr> r_action = NextQuestion, r_message = JString (question_text next_question),
                   r_state = st3, r_question_category = Some (category next_question) \<rparr>
         | Inr None \<Rightarrow>
             Inr \<lparr> r_action = Complete,
                   r_message = JString ''Thank you for completing all the questions! I'm now preparing your feedback.'',
                   r_state = st3\<lparr>is_completed := True\<rparr>, r_question_category = None \<rparr>)"
      using True
      by (simp add: validate_and_respond_def cur goc v Let_def verdict_def[symmetric]
            st2_def[symmetric] st3_def[symmetric])
    have "r_state r = st3 \<and> current_question_index st3 < 8
            \<or> r_state r = st3\<lparr>is_completed := True\<rparr>"
      using res rng unfolding eq
      by (auto simp: get_current_question_cases st3_def idx2 split: if_splits)
    moreover have "current_question_index st3 = current_question_index st + 1"
      by (simp add: st3_def idx2)
    moreover have "answers st3 = answers st2" by (simp add: st3_def)
    ultimately show ?thesis using ok2 rng
      by (auto simp: session_inv_def length_QUESTIONS)
  next
    case False
    define st3 where
      "st3 = update_answer i (\<lambda>a. a\<lparr>follow_up_count := follow_up_count a + 1\<rparr>) st2"
    have r: "r_state r = st3"
      using res cur goc v False
      by (auto simp: validate_and_respond_def Let_def verdict_def[symmetric] st2_def[symmetric]
            st3_def[symmetric])
    have "0 \<le> follow_up_count (answers st2 ! i)"
      using ok2 len2 by (simp add: answers_ok_def list_all_length)
    then have "answers_ok (answers st3)"
      using answers_ok_update[of "answers st2" i "\<lambda>a. a\<lparr>follow_up_count := follow_up_count a + 1\<rparr>"]
        ok2 len2 False
      by (simp add: st3_def update_answer_simps)
    then show ?thesis using r rng idx2 inv
      by (simp add: session_inv_def st3_def update_answer_simps length_QUESTIONS)
  qed
qed

lemma process_turns_inv:
  "session_inv st \<Longrightarrow> process_turns loads st turns = Inr st' \<Longrightarrow>
     session_inv st' \<and> current_question_index st \<le> current_question_index st'"
proof (induction turns arbitrary: st)
  case Nil
  then show ?case by simp
next
  case (Cons t turns)
  obtain user_answer out now where t: "t = (user_answer, out, now)" by (cases t)
  from Cons.prems(2) obtain r where
    r: "validate_and_respond loads st user_answer out now = Inr r"
    and rest: "process_turns loads (r_state r) turns = Inr st'"
    by (auto simp: t split: sum.splits)
  from validate_and_respond_inv[OF Cons.prems(1) r]
  have "session_inv (r_state r)"
    and "current_question_index st \<le> current_question_index (r_state r)"
    by auto
  with Cons.IH[OF _ rest] show ?case by auto
qed

lemma reachable_inv:
  "process_turns loads (new_session sid t0) turns = Inr st \<Longrightarrow> session_inv st"
  using process_turns_inv[OF session_inv_new_session] by blast

lemma category_titles:
  "map (\<lambda>c. py_title (py_replace_char CHR ''_'' CHR '' '' (category_value c)))
     [INTRODUCTION, MOTIVATION, INDUSTRY_EXPERIENCE, LEARNINGS, STRENGTHS_WEAKNESSES,
      FUTURE_VISION, UNIQUE_VALUE, AVAILABILITY]
   = [''Introduction'', ''Motivation'', ''Industry Experience'', ''Learnings'',
      ''Strengths Weaknesses'', ''Future Vision'', ''Unique Value'', ''Availability'']"
  by code_simp

section \<open>The two branches of a turn\<close>

lemma get_current_question_next:
  assumes "get_current_question st = Inr (Some q)"
  shows "\<exists>n. get_current_question (st'\<lparr>current_question_index := current_question_index st + 1\<rparr>)
           = Inr n"
  using assms by (auto simp: get_current_question_cases split: if_splits)

lemma validate_and_respond_advance:
  assumes cur: "get_current_question st = Inr (Some q)"
    and goc: "get_or_create_answer st q user_answer now = (i, st1)"
    and v: "validate_answer_completeness loads out = JObject d"
    and adv: "py_truthy (dict_get (map_of d ''is_complete'') (JBool True))
                \<or> max_follow_ups \<le> follow_up_count (answers st1 ! i)"
  shows "\<exists>r. validate_and_respond loads st user_answer out now = Inr r
           \<and> r_action r \<noteq> FollowUp
           \<and> current_question_index (r_state r) = current_question_index st + 1
           \<and> answers (r_state r)
               = (answers st1)[i := (answers st1 ! i)
                    \<lparr>is_complete := dict_get (map_of d ''is_complete'') (JBool True)\<rparr>]"
proof -
  note p = get_or_create_answer_props[OF goc]
  define verdict where "verdict = dict_get (map_of d ''is_complete'') (JBool True)"
  define st2 where "st2 = update_answer i (\<lambda>a. a\<lparr>is_complete := verdict\<rparr>) st1"
  have rec2: "answers st2 ! i = (answers st1 ! i)\<lparr>is_complete := verdict\<rparr>"
    using p(1) by (simp add: st2_def update_answer_simps)
  have cond: "py_truthy (is_complete (answers st2 ! i))
                \<or> follow_up_count (answers st2 ! i) \<ge> max_follow_ups"
    using adv by (simp add: rec2 verdict_def)
  define st3 where "st3 = st2\<lparr>current_question_index := current_question_index st2 + 1\<rparr>"
  have idx2: "current_question_index st2 = current_question_index st"
    using p(3) by (simp add: st2_def update_answer_simps)
  have st3: "st3 = st2\<lparr>current_question_index := current_question_index st + 1\<rparr>"
    by (simp add: st3_def idx2)
  have eq: "validate_and_respond loads st user_answer out now =
      (case get_current_question st3 of
         Inl e \<Rightarrow> Inl e
       | Inr (Some next_question) \<Rightarrow>
           Inr \<lparr> r_action = NextQuestion, r_message = JString (question_text next_question),
                 r_state = st3, r_question_category = Some (category next_question) \<rparr>
       | Inr None \<Rightarrow>
           Inr \<lparr> r_action = Complete,
                 r_message = JString ''Thank you for completing all the questions! I'm now preparing your feedback.'',
                 r_state = st3\<lparr>is_completed := True\<rparr>, r_question_category = None \<rparr>)"
    using cond
    by (simp add: validate_and_respond_def cur goc v Let_def verdict_def[symmetric]
          st2_def[symmetric] st3_def[symmetric])
  obtain n where n: "get_current_question st3 = Inr n"
    using get_current_question_next[OF cur] unfolding st3 by blast
  have a3: "answers st3 = (answers st1)[i := (answers st1 ! i)\<lparr>is_complete := verdict\<rparr>]"
    by (simp add: st3 st2_def update_answer_simps)
  have i3: "current_question_index st3 = current_question_index st + 1"
    by (simp add: st3)
  show ?thesis
    unfolding eq n using a3 i3 by (cases n) (simp_all add: verdict_def)
qed

lemma validate_and_respond_follow_up:
  assumes cur: "get_current_question st = Inr (Some q)"
    and goc: "get_or_create_answer st q user_answer now = (i, st1)"
    and v: "validate_answer_completeness loads out = JObject d"
    and incomplete: "\<not> py_truthy (dict_get (map_of d ''is_complete'') (JBool True))"
    and under: "follow_up_count (answers st1 ! i) < max_follow_ups"
  shows "validate_and_respond loads st user_answer out now =
           Inr \<lparr> r_action = FollowUp,
                 r_message = dict_get (map_of d ''follow_up'')
                               (JString ''Could you tell me more about that?''),
                 r_state = update_answer i (\<lambda>a. a\<lparr>follow_up_count := follow_up_count a + 1\<rparr>)
                             (update_answer i
                                (\<lambda>a. a\<lparr>is_complete := dict_get (map_of d ''is_complete'') (JBool True)\<rparr>)
                                st1),
                 r_question_category = Some (category q) \<rparr>"
proof -
  note p = get_or_create_answer_props[OF goc]
  define verdict where "verdict = dict_get (map_of d ''is_complete'') (JBool True)"
  define st2 where "st2 = update_answer i (\<lambda>a. a\<lparr>is_complete := verdict\<rparr>) st1"
  have rec2: "answers st2 ! i = (answers st1 ! i)\<lparr>is_complete := verdict\<rparr>"
    using p(1) by (simp add: st2_def update_answer_simps)
  have cond: "\<not> (py_truthy (is_complete (answers st2 ! i))
                  \<or> follow_up_count (answers st2 ! i) \<ge> max_follow_ups)"
    using under incomplete by (simp add: rec2 verdict_def)
  show ?thesis
    using cond
    by (simp add: validate_and_respond_def cur goc v Let_def verdict_def[symmetric]
          st2_def[symmetric])
qed

lemma validate_and_respond_no_dictionary:
  assumes cur: "get_current_question st = Inr (Some q)"
    and v: "\<forall>d. validate_answer_completeness loads out \<noteq> JObject d"
  shows "validate_and_respond loads st user_answer out now = Inl AttributeError"
proof -
  obtain i st1 where goc: "get_or_create_answer st q user_answer now = (i, st1)"
    by (cases "get_or_create_answer st q user_answer now")
  show ?thesis
    using v by (cases "validate_answer_completeness loads out")
      (simp_all add: validate_and_respond_def cur goc)
qed

lemma validate_and_respond_dictionary:
  assumes cur: "get_current_question st = Inr (Some q)"
    and res: "validate_and_respond loads st user_answer out now = Inr r"
  shows "\<exists>d. validate_answer_completeness loads out = JObject d"
  using validate_and_respond_no_dictionary[OF cur, of loads out user_answer now] res by auto

section \<open>The two cases of a merge\<close>

lemma get_or_create_answer_existing:
  assumes "find_existing (answers st) (category q) = Some i"
  shows "get_or_create_answer st q t now =
           (i, st\<lparr>answers := (answers st)
                   [i := (answers st ! i)\<lparr>answer_text := answer_text (answers st ! i) @ '' '' @ t\<rparr>]\<rparr>)"
  using assms by (simp add: get_or_create_answer_def update_answer_def)

lemma get_or_create_answer_new:
  assumes "category q \<notin> set (map question_category (answers st))"
  shows "get_or_create_answer st q t now =
           (length (answers st),
            st\<lparr>answers := answers st @
               [\<lparr> question_category = category q, answer_question_text = question_text q,
                  answer_text = t, follow_up_count = 0, is_complete = JBool False, timestamp = now \<rparr>]\<rparr>)"
proof -
  have "find_existing (answers st) (category q) = None"
    using assms find_existing_None by blast
  then show ?thesis by (simp add: get_or_create_answer_def)
qed

lemma find_existing_append_new:
  assumes "c \<notin> set (map question_category xs)" and "question_category a = c"
  shows "find_existing (xs @ [a]) c = Some (length xs)"
  using assms by (induction xs) auto

section \<open>The oracle's failure\<close>

lemma validate_answer_completeness_failure:
  assumes "out = LlmRaises \<or> (\<exists>c. out = LlmContent c \<and> loads c = None)"
  shows "validate_answer_completeness loads out = default_validation"
  using assms by (auto simp: validate_answer_completeness_def)

lemma advance_marks_complete:
  assumes cur: "get_current_question st = Inr (Some q)"
    and goc: "get_or_create_answer st q user_answer now = (i, st1)"
    and v: "validate_answer_completeness loads out = JObject d"
    and verdict: "py_truthy (dict_get (map_of d ''is_complete'') (JBool True))"
  shows "\<exists>r. validate_and_respond loads st user_answer out now = Inr r
           \<and> r_action r \<noteq> FollowUp
           \<and> current_question_index (r_state r) = current_question_index st + 1
           \<and> i < length (answers (r_state r))
           \<and> question_category (answers (r_state r) ! i) = category q
           \<and> is_complete (answers (r_state r) ! i)
               = dict_get (map_of d ''is_complete'') (JBool True)"
proof -
  note p = get_or_create_answer_props[OF goc]
  from validate_and_respond_advance[OF cur goc v] verdict obtain r where
    r: "validate_and_respond loads st user_answer out now = Inr r"
      "r_action r \<noteq> FollowUp"
      "current_question_index (r_state r) = current_question_index st + 1"
      "answers (r_state r)
         = (answers st1)[i := (answers st1 ! i)
              \<lparr>is_complete := dict_get (map_of d ''is_complete'') (JBool True)\<rparr>]"
    by blast
  have "i < length (answers (r_state r))" using p(1) r(4) by simp
  moreover have "question_category (answers (r_state r) ! i) = category q"
    using p(1) p(2) r(4) by simp
  moreover have "is_complete (answers (r_state r) ! i)
                   = dict_get (map_of d ''is_complete'') (JBool True)"
    using p(1) r(4) by simp
  ultimately show ?thesis using r(1-3) by blast
qed

section \<open>Counting the turns of a question\<close>

lemma distinct_categories: "distinct (map category QUESTIONS)"
  by (simp add: QUESTIONS_def)

lemma find_existing_cong:
  "map question_category xs = map question_category ys \<Longrightarrow> find_existing xs c = find_existing ys c"
proof (induction xs arbitrary: ys)
  case Nil
  then show ?case by simp
next
  case (Cons x xs)
  then obtain y ys' where "ys = y # ys'" by (cases ys) auto
  with Cons show ?case by auto
qed

lemma get_or_create_answer_cases:
  assumes "get_or_create_answer st q t now = (i, st1)"
  shows "find_existing (answers st1) (category q) = Some i
       \<and> (find_existing (answers st) (category q) = None
            \<and> answers st1 = answers st @
                 [\<lparr> question_category = category q, answer_question_text = question_text q,
                    answer_text = t, follow_up_count = 0, is_complete = JBool False, timestamp = now \<rparr>]
          \<or> find_existing (answers st) (category q) = Some i
            \<and> answers st1 = (answers st)
                 [i := (answers st ! i)\<lparr>answer_text := answer_text (answers st ! i) @ '' '' @ t\<rparr>])"
proof (cases "find_existing (answers st) (category q)")
  case None
  then have fresh: "category q \<notin> set (map question_category (answers st))"
    using find_existing_None by blast
  from get_or_create_answer_new[OF fresh, of t now] assms
  have i: "i = length (answers st)"
    and a: "answers st1 = answers st @
         [\<lparr> question_category = category q, answer_question_text = question_text q,
            answer_text = t, follow_up_count = 0, is_complete = JBool False, timestamp = now \<rparr>]"
    by auto
  have "find_existing (answers st1) (category q) = Some i"
    unfolding a i using fresh by (intro find_existing_append_new) simp_all
  with None a show ?thesis by simp
next
  case (Some j)
  from get_or_create_answer_existing[OF Some, of t now] assms
  have i: "i = j"
    and a: "answers st1 = (answers st)
         [j := (answers st ! j)\<lparr>answer_text := answer_text (answers st ! j) @ '' '' @ t\<rparr>]"
    by auto
  have j: "j < length (answers st)" using Some by (simp add: find_existing_Some)
  have "map question_category (answers st1) = map question_category (answers st)"
    unfolding a using j by (simp add: map_update list_update_same_conv)
  from find_existing_cong[OF this] Some have "find_existing (answers st1) (category q) = Some j"
    by simp
  with Some a i show ?thesis by simp
qed

lemma turn_step:
  assumes rng: "0 \<le> current_question_index st" "current_question_index st < 8"
    and res: "validate_and_respond loads st user_answer out now = Inr r"
  shows "\<exists>i st1 b. get_or_create_answer st (QUESTIONS ! nat (current_question_index st)) user_answer now
                  = (i, st1)
          \<and> (r_action r \<noteq> FollowUp
               \<and> current_question_index (r_state r) = current_question_index st + 1
               \<and> answers (r_state r)
                   = (answers st1)[i := (answers st1 ! i)\<lparr>is_complete := b\<rparr>]
             \<or> r_action r = FollowUp
               \<and> current_question_index (r_state r) = current_question_index st
               \<and> follow_up_count (answers st1 ! i) < max_follow_ups
               \<and> answers (r_state r)
                   = (answers st1)[i := (answers st1 ! i)
                        \<lparr>is_complete := b,
                         follow_up_count := follow_up_count (answers st1 ! i) + 1\<rparr>])"
proof -
  define q where "q = QUESTIONS ! nat (current_question_index st)"
  have cur: "get_current_question st = Inr (Some q)"
    using rng by (simp add: get_current_question_cases q_def)
  obtain i st1 where goc: "get_or_create_answer st q user_answer now = (i, st1)"
    by (cases "get_or_create_answer st q user_answer now")
  note p = get_or_create_answer_props[OF goc]
  obtain d where v: "validate_answer_completeness loads out = JObject d"
    using validate_and_respond_dictionary[OF cur res] by blast
  define b where "b = dict_get (map_of d ''is_complete'') (JBool True)"
  have "r_action r \<noteq> FollowUp
               \<and> current_question_index (r_state r) = current_question_index st + 1
               \<and> answers (r_state r)
                   = (answers st1)[i := (answers st1 ! i)\<lparr>is_complete := b\<rparr>]
             \<or> r_action r = FollowUp
               \<and> current_question_index (r_state r) = current_question_index st
               \<and> follow_up_count (answers st1 ! i) < max_follow_ups
               \<and> answers (r_state r)
                   = (answers st1)[i := (answers st1 ! i)
                        \<lparr>is_complete := b,
                         follow_up_count := follow_up_count (answers st1 ! i) + 1\<rparr>]"
  proof (cases "py_truthy (dict_get (map_of d ''is_complete'') (JBool True))
                  \<or> max_follow_ups \<le> follow_up_count (answers st1 ! i)")
    case True
    from validate_and_respond_advance[OF cur goc v True] res show ?thesis
      by (auto simp: b_def)
  next
    case False
    then have inc: "\<not> py_truthy (dict_get (map_of d ''is_complete'') (JBool True))"
      and under: "follow_up_count (answers st1 ! i) < max_follow_ups"
      by auto
    from validate_and_respond_follow_up[OF cur goc v inc under] res
    have "r = \<lparr> r_action = FollowUp,
                 r_message = dict_get (map_of d ''follow_up'')
                               (JString ''Could you tell me more about that?''),
                 r_state = update_answer i (\<lambda>a. a\<lparr>follow_up_count := follow_up_count a + 1\<rparr>)
                             (update_answer i (\<lambda>a. a\<lparr>is_complete := b\<rparr>) st1),
                 r_question_category = Some (category q) \<rparr>"
      by (simp add: b_def)
    then show ?thesis using under p(1) p(3) by (simp add: update_answer_simps)
  qed
  with goc show ?thesis unfolding q_def by blast
qed

lemma category_nth_inj:
  assumes "i < 8" "j < 8" "category (QUESTIONS ! i) = category (QUESTIONS ! j)"
  shows "i = j"
proof -
  have li: "i < length (map category QUESTIONS)" and lj: "j < length (map category QUESTIONS)"
    using assms(1,2) by (simp_all add: length_QUESTIONS)
  have "map category QUESTIONS ! i = map category QUESTIONS ! j"
    using assms by (simp add: length_QUESTIONS)
  then show ?thesis
    using nth_eq_iff_index_eq[OF distinct_categories li lj] by simp
qed

lemma asked_inv_not_yet:
  assumes asked: "asked_inv st" and k: "current_question_index st < k" "k < 8"
    and idx: "0 \<le> current_question_index st"
  shows "category (QUESTIONS ! nat k) \<notin> set (map question_category (answers st))"
proof
  assume "category (QUESTIONS ! nat k) \<in> set (map question_category (answers st))"
  then have "category (QUESTIONS ! nat k)
               \<in> set (map category (take (nat (current_question_index st) + 1) QUESTIONS))"
    using asked by (auto simp: asked_inv_def list_all_iff)
  then obtain j where j0: "j < length (map category (take (nat (current_question_index st) + 1) QUESTIONS))"
    and eq0: "map category (take (nat (current_question_index st) + 1) QUESTIONS) ! j
                = category (QUESTIONS ! nat k)"
    unfolding in_set_conv_nth by blast
  have j: "j < nat (current_question_index st) + 1" "j < 8"
    using j0 by (simp_all add: length_QUESTIONS)
  have eq: "category (QUESTIONS ! nat k) = category (QUESTIONS ! j)"
    using eq0 j by (simp add: length_QUESTIONS)
  have "nat k < 8" using k idx by simp
  from category_nth_inj[OF j(2) this eq[symmetric]] j(1) k idx show False by simp
qed

lemma follow_ups_left_nonneg:
  assumes "session_inv st"
  shows "0 \<le> follow_ups_left st k"
proof (cases "find_existing (answers st) (category (QUESTIONS ! nat k))")
  case None
  then show ?thesis by (simp add: follow_ups_left_def max_follow_ups_def)
next
  case (Some i)
  then have "i < length (answers st)" by (simp add: find_existing_Some)
  then have "follow_up_count (answers st ! i) \<le> max_follow_ups"
    using assms by (simp add: session_inv_def answers_ok_def list_all_length)
  with Some show ?thesis by (simp add: follow_ups_left_def)
qed

lemma left_after_merge:
  assumes "get_or_create_answer st q t now = (i, st1)"
  shows "(case find_existing (answers st) (category q) of
            None \<Rightarrow> max_follow_ups
          | Some i' \<Rightarrow> max_follow_ups - follow_up_count (answers st ! i'))
         = max_follow_ups - follow_up_count (answers st1 ! i)"
proof -
  from get_or_create_answer_cases[OF assms]
  consider (new) "find_existing (answers st) (category q) = None"
      "answers st1 = answers st @
         [\<lparr> question_category = category q, answer_question_text = question_text q,
            answer_text = t, follow_up_count = 0, is_complete = JBool False, timestamp = now \<rparr>]"
      "find_existing (answers st1) (category q) = Some i"
    | (old) "find_existing (answers st) (category q) = Some i"
      "answers st1 = (answers st)
         [i := (answers st ! i)\<lparr>answer_text := answer_text (answers st ! i) @ '' '' @ t\<rparr>]"
    by auto
  then show ?thesis
  proof cases
    case new
    have "i = length (answers st)"
      using new(1,3) find_existing_append_new[of "category q" "answers st"] find_existing_None
      unfolding new(2) by fastforce
    then show ?thesis using new by simp
  next
    case old
    then have "i < length (answers st)" by (simp add: find_existing_Some)
    then show ?thesis using old by simp
  qed
qed

lemma merged_categories:
  assumes "get_or_create_answer st q t now = (i, st1)"
  shows "set (map question_category (answers st1))
           \<subseteq> insert (category q) (set (map question_category (answers st)))"
proof -
  from get_or_create_answer_cases[OF assms]
  consider (new) "answers st1 = answers st @
         [\<lparr> question_category = category q, answer_question_text = question_text q,
            answer_text = t, follow_up_count = 0, is_complete = JBool False, timestamp = now \<rparr>]"
    | (old) "find_existing (answers st) (category q) = Some i"
      "answers st1 = (answers st)
         [i := (answers st ! i)\<lparr>answer_text := answer_text (answers st ! i) @ '' '' @ t\<rparr>]"
    by auto
  then show ?thesis
  proof cases
    case new
    then show ?thesis by auto
  next
    case old
    then have "i < length (answers st)" by (simp add: find_existing_Some)
    then have "map question_category (answers st1) = map question_category (answers st)"
      unfolding old(2) by (simp add: map_update list_update_same_conv)
    then show ?thesis by auto
  qed
qed

lemma turn_keeps_categories:
  assumes rng: "0 \<le> current_question_index st" "current_question_index st < 8"
    and res: "validate_and_respond loads st user_answer out now = Inr r"
    and goc: "get_or_create_answer st (QUESTIONS ! nat (current_question_index st)) user_answer now
                = (i, st1)"
  shows "map question_category (answers (r_state r)) = map question_category (answers st1)"
proof -
  note p = get_or_create_answer_props[OF goc]
  from turn_step[OF rng res] goc
  obtain f where "answers (r_state r) = (answers st1)[i := f (answers st1 ! i)]"
    and "question_category (f (answers st1 ! i)) = question_category (answers st1 ! i)"
    by fastforce
  then show ?thesis using p(1) by (simp add: map_update list_update_same_conv)
qed

lemma turn_keeps_asked:
  assumes inv: "session_inv st" and asked: "asked_inv st"
    and res: "validate_and_respond loads st user_answer out now = Inr r"
  shows "asked_inv (r_state r)"
proof (cases "current_question_index st < 8")
  case False
  then have "r_state r = st"
    using res by (auto simp: validate_and_respond_def get_current_question_cases)
  then show ?thesis using asked by simp
next
  case True
  with inv have rng: "0 \<le> current_question_index st" "current_question_index st < 8"
    by (simp_all add: session_inv_def)
  let ?q = "QUESTIONS ! nat (current_question_index st)"
  obtain i st1 where goc: "get_or_create_answer st ?q user_answer now = (i, st1)"
    by (cases "get_or_create_answer st ?q user_answer now")
  have cats: "set (map question_category (answers (r_state r)))
                \<subseteq> insert (category ?q) (set (map question_category (answers st)))"
    using turn_keeps_categories[OF rng res goc] merged_categories[OF goc] by simp
  have mono: "current_question_index st \<le> current_question_index (r_state r)"
    using validate_and_respond_inv[OF inv res] by auto
  let ?old = "set (map category (take (nat (current_question_index st) + 1) QUESTIONS))"
  let ?new = "set (map category (take (nat (current_question_index (r_state r)) + 1) QUESTIONS))"
  have "set (take (nat (current_question_index st) + 1) QUESTIONS)
          \<subseteq> set (take (nat (current_question_index (r_state r)) + 1) QUESTIONS)"
    using mono by (intro set_take_subset_set_take) simp
  then have sub: "?old \<subseteq> ?new" by auto
  have "?q \<in> set (take (nat (current_question_index st) + 1) QUESTIONS)"
    using rng by (auto simp: in_set_conv_nth length_QUESTIONS intro!: exI[of _ "nat (current_question_index st)"])
  then have "category ?q \<in> ?old" by simp
  moreover have "set (map question_category (answers st)) \<subseteq> ?old"
    using asked by (auto simp: asked_inv_def list_all_iff)
  ultimately have "set (map question_category (answers (r_state r))) \<subseteq> ?new"
    using cats sub by blast
  then show ?thesis by (auto simp: asked_inv_def list_all_iff)
qed

lemma asked_inv_new_session: "asked_inv (new_session sid now)"
  by (simp add: asked_inv_def new_session_def)

lemma log_counts:
  assumes k: "0 \<le> k" "k < 8"
  shows "session_inv st \<Longrightarrow> asked_inv st \<Longrightarrow>
     int (follow_ups_at k (turn_log loads st turns))
       \<le> (if k < current_question_index st then 0 else follow_ups_left st k)
     \<and> int (turns_at k (turn_log loads st turns))
       \<le> (if k < current_question_index st then 0 else follow_ups_left st k + 1)"
proof (induction turns arbitrary: st)
  case Nil
  with follow_ups_left_nonneg[OF Nil(1), of k] show ?case
    by (simp add: follow_ups_at_def turns_at_def)
next
  case (Cons t turns)
  note inv = Cons.prems(1) and asked = Cons.prems(2)
  note nonneg = follow_ups_left_nonneg[OF inv, of k]
  obtain user_answer out now where t: "t = (user_answer, out, now)" by (cases t)
  show ?case
  proof (cases "validate_and_respond loads st user_answer out now")
    case (Inl e)
    then show ?thesis using nonneg by (simp add: t follow_ups_at_def turns_at_def)
  next
    case (Inr r)
    let ?st' = "r_state r"
    let ?rest = "turn_log loads ?st' turns"
    have log: "turn_log loads st (t # turns) = (current_question_index st, r_action r) # ?rest"
      by (simp add: t Inr)
    have F: "int (follow_ups_at k (turn_log loads st (t # turns)))
              = (if current_question_index st = k \<and> r_action r = FollowUp then 1 else 0)
                + int (follow_ups_at k ?rest)"
      by (simp add: log follow_ups_at_def)
    have T: "int (turns_at k (turn_log loads st (t # turns)))
              = (if current_question_index st = k then 1 else 0) + int (turns_at k ?rest)"
      by (simp add: log turns_at_def)
    have inv': "session_inv ?st'" and mono: "current_question_index st \<le> current_question_index ?st'"
      using validate_and_respond_inv[OF inv Inr] by auto
    have asked': "asked_inv ?st'" using turn_keeps_asked[OF inv asked Inr] .
    note IH = Cons.IH[OF inv' asked']
    show ?thesis
    proof (cases "current_question_index st < 8")
      case False
      then have eight: "current_question_index st = 8"
        using inv by (simp add: session_inv_def length_QUESTIONS)
      then have "r_state r = st"
        using Inr by (auto simp: validate_and_respond_def get_current_question_cases)
      with IH eight k show ?thesis unfolding F T by simp
    next
      case True
      with inv have rng: "0 \<le> current_question_index st" "current_question_index st < 8"
        by (simp_all add: session_inv_def)
      let ?q = "QUESTIONS ! nat (current_question_index st)"
      from turn_step[OF rng Inr] obtain i st1 b where
        goc: "get_or_create_answer st ?q user_answer now = (i, st1)"
        and step: "r_action r \<noteq> FollowUp
               \<and> current_question_index ?st' = current_question_index st + 1
             \<or> r_action r = FollowUp
               \<and> current_question_index ?st' = current_question_index st
               \<and> follow_up_count (answers st1 ! i) < max_follow_ups
               \<and> answers ?st'
                   = (answers st1)[i := (answers st1 ! i)
                        \<lparr>is_complete := b,
                         follow_up_count := follow_up_count (answers st1 ! i) + 1\<rparr>]"
        by blast
      note p = get_or_create_answer_props[OF goc]
      note cats' = turn_keeps_categories[OF rng Inr goc]
      consider (lt) "k < current_question_index st" | (eq) "k = current_question_index st"
        | (gt) "current_question_index st < k" by linarith
      then show ?thesis
      proof cases
        case lt
        with IH mono show ?thesis unfolding F T by simp
      next
        case gt
        have "category (QUESTIONS ! nat k) \<notin> set (map question_category (answers st))"
          using asked_inv_not_yet[OF asked gt k(2) rng(1)] .
        moreover have "category (QUESTIONS ! nat k) \<noteq> category ?q"
        proof
          assume same: "category (QUESTIONS ! nat k) = category ?q"
          have "nat k < 8" "nat (current_question_index st) < 8" using k rng by simp_all
          from category_nth_inj[OF this same] gt rng show False by simp
        qed
        ultimately have "category (QUESTIONS ! nat k) \<notin> set (map question_category (answers ?st'))"
          using merged_categories[OF goc] cats' by auto
        then have "find_existing (answers ?st') (category (QUESTIONS ! nat k)) = None"
          using find_existing_None by blast
        then have left': "follow_ups_left ?st' k = max_follow_ups"
          by (simp add: follow_ups_left_def)
        have "find_existing (answers st) (category (QUESTIONS ! nat k)) = None"
          using asked_inv_not_yet[OF asked gt k(2) rng(1)] find_existing_None by blast
        then have left: "follow_ups_left st k = max_follow_ups"
          by (simp add: follow_ups_left_def)
        have "\<not> k < current_question_index ?st'" using step gt by auto
        with IH gt left left' show ?thesis unfolding F T by simp
      next
        case eq
        have left: "follow_ups_left st k = max_follow_ups - follow_up_count (answers st1 ! i)"
          using left_after_merge[OF goc] by (simp add: follow_ups_left_def eq)
        from step show ?thesis
        proof (elim disjE conjE)
          assume a: "r_action r \<noteq> FollowUp"
            and i': "current_question_index ?st' = current_question_index st + 1"
          with IH eq nonneg show ?thesis unfolding F T by simp
        next
          assume a: "r_action r = FollowUp"
            and i': "current_question_index ?st' = current_question_index st"
            and under: "follow_up_count (answers st1 ! i) < max_follow_ups"
            and ans: "answers ?st'
                   = (answers st1)[i := (answers st1 ! i)
                        \<lparr>is_complete := b,
                         follow_up_count := follow_up_count (answers st1 ! i) + 1\<rparr>]"
          have "find_existing (answers ?st') (category ?q) = Some i"
            using find_existing_cong[OF cats'] get_or_create_answer_cases[OF goc] by simp
          moreover have "follow_up_count (answers ?st' ! i) = follow_up_count (answers st1 ! i) + 1"
            using p(1) by (simp add: ans)
          ultimately have "follow_ups_left ?st' k
                             = max_follow_ups - (follow_up_count (answers st1 ! i) + 1)"
            by (simp add: follow_ups_left_def eq)
          then have left': "follow_ups_left ?st' k = follow_ups_left st k - 1"
            using left by simp
          with IH eq a i' show ?thesis unfolding F T by simp
        qed
      qed
    qed
  qed
qed

lemma log_counts_new_session:
  assumes "0 \<le> k" "k < 8"
  shows "follow_ups_at k (turn_log loads (new_session sid t0) turns) \<le> 2"
    and "turns_at k (turn_log loads (new_session sid t0) turns) \<le> 3"
proof -
  have "follow_ups_left (new_session sid t0) k = 2"
    by (simp add: follow_ups_left_def new_session_def max_follow_ups_def)
  moreover have "\<not> k < current_question_index (new_session sid t0)"
    using assms by (simp add: new_session_def)
  moreover have "int (follow_ups_at k (turn_log loads (new_session sid t0) turns))
       \<le> (if k < current_question_index (new_session sid t0) then 0
          else follow_ups_left (new_session sid t0) k)
     \<and> int (turns_at k (turn_log loads (new_session sid t0) turns))
       \<le> (if k < current_question_index (new_session sid t0) then 0
          else follow_ups_left (new_session sid t0) k + 1)"
    by (rule log_counts[OF assms session_inv_new_session asked_inv_new_session])
  ultimately show "follow_ups_at k (turn_log loads (new_session sid t0) turns) \<le> 2"
    and "turns_at k (turn_log loads (new_session sid t0) turns) \<le> 3"
    by simp_all
qed

lemma turn_log_complete:
  "process_turns loads st turns = Inr st' \<Longrightarrow> length (turn_log loads st turns) = length turns"
proof (induction turns arbitrary: st)
  case Nil
  then show ?case by simp
next
  case (Cons t turns)
  obtain user_answer out now where t: "t = (user_answer, out, now)" by (cases t)
  from Cons.prems obtain r where
    r: "validate_and_respond loads st user_answer out now = Inr r"
    and rest: "process_turns loads (r_state r) turns = Inr st'"
    by (auto simp: t split: sum.splits)
  from Cons.IH[OF rest] show ?case by (simp add: t r)
qed

section \<open>The shape of a turn\<close>


section \<open>The handler\<close>






















section \<open>The claims of the specification\<close>

text \<open>
  C1. In every state reached by processing turns from a new session, every answer record
  has a follow-up count of at most 2. From such a state, a turn on a question whose record
  already has a follow-up count of 2 or more advances the cursor by one and is no
  follow-up, whatever dictionary the oracle returns. So in the run that led to the state,
  in which every turn was answered, each question of the catalog received at most 2
  follow-ups and took at most 3 turns.
\<close>

theorem follow_up_ceiling:
  assumes "process_turns loads (new_session sid t0) turns = Inr st"
  shows "(\<forall>a \<in> set (answers st). follow_up_count a \<le> 2)
       \<and> (get_current_question st = Inr (Some q)
            \<and> find_existing (answers st) (category q) = Some i
            \<and> 2 \<le> follow_up_count (answers st ! i)
            \<and> validate_answer_completeness loads out = JObject d
          \<longrightarrow> (\<exists>r. validate_and_respond loads st user_answer out now = Inr r
                  \<and> r_action r \<noteq> FollowUp
                  \<and> current_question_index (r_state r) = current_question_index st + 1))
       \<and> length (turn_log loads (new_session sid t0) turns) = length turns
       \<and> (0 \<le> k \<and> k < 8
          \<longrightarrow> follow_ups_at k (turn_log loads (new_session sid t0) turns) \<le> 2
            \<and> turns_at k (turn_log loads (new_session sid t0) turns) \<le> 3)"
proof -
  have "session_inv st" using assms by (rule reachable_inv)
  then have bound: "\<forall>a \<in> set (answers st). follow_up_count a \<le> 2"
    by (simp add: session_inv_def answers_ok_def list_all_iff max_follow_ups_def)
  have forced: "\<exists>r. validate_and_respond loads st user_answer out now = Inr r
                  \<and> r_action r \<noteq> FollowUp
                  \<and> current_question_index (r_state r) = current_question_index st + 1"
    if cur: "get_current_question st = Inr (Some q)"
      and ex: "find_existing (answers st) (category q) = Some i"
      and ceil: "2 \<le> follow_up_count (answers st ! i)"
      and v: "validate_answer_completeness loads out = JObject d"
  proof -
    let ?st1 = "st\<lparr>answers := (answers st)
        [i := (answers st ! i)\<lparr>answer_text := answer_text (answers st ! i) @ '' '' @ user_answer\<rparr>]\<rparr>"
    have goc: "get_or_create_answer st q user_answer now = (i, ?st1)"
      using ex by (rule get_or_create_answer_existing)
    have "i < length (answers st)" using ex by (simp add: find_existing_Some)
    then have "follow_up_count (answers ?st1 ! i) = follow_up_count (answers st ! i)"
      by simp
    then have "max_follow_ups \<le> follow_up_count (answers ?st1 ! i)"
      using ceil by (simp add: max_follow_ups_def)
    then show ?thesis
      using validate_and_respond_advance[OF cur goc v] by blast
  qed
  have whole: "length (turn_log loads (new_session sid t0) turns) = length turns"
    using assms by (rule turn_log_complete)
  have counts: "follow_ups_at k (turn_log loads (new_session sid t0) turns) \<le> 2
            \<and> turns_at k (turn_log loads (new_session sid t0) turns) \<le> 3"
    if "0 \<le> k \<and> k < 8"
    using log_counts_new_session[of k loads sid t0 turns] that by simp
  from bound forced whole counts show ?thesis by blast
qed

theorem follow_up_ceiling_witness:
  "\<exists>st. process_turns (\<lambda>c. Some (JObject [(''is_complete'', JBool False)]))
          (new_session ''s'' 0)
          [(''A'', LlmContent ''x'', 1), (''B'', LlmContent ''x'', 2)] = Inr st
     \<and> map follow_up_count (answers st) = [2]
     \<and> get_current_question st = Inr (Some (QUESTIONS ! 0))
     \<and> find_existing (answers st) (category (QUESTIONS ! 0)) = Some 0
     \<and> (\<exists>r. validate_and_respond (\<lambda>c. Some (JObject [(''is_complete'', JBool False)]))
               st ''C'' (LlmContent ''x'') 3 = Inr r
            \<and> r_action r \<noteq> FollowUp
            \<and> current_question_index (r_state r) = current_question_index st + 1)
     \<and> turn_log (\<lambda>c. Some (JObject [(''is_complete'', JBool False)]))
          (new_session ''s'' 0)
          [(''A'', LlmContent ''x'', 1), (''B'', LlmContent ''x'', 2)]
        = [(0, FollowUp), (0, FollowUp)]
     \<and> follow_ups_at 0 (turn_log (\<lambda>c. Some (JObject [(''is_complete'', JBool False)]))
          (new_session ''s'' 0)
          [(''A'', LlmContent ''x'', 1), (''B'', LlmContent ''x'', 2)]) \<le> 2
     \<and> turns_at 0 (turn_log (\<lambda>c. Some (JObject [(''is_complete'', JBool False)]))
          (new_session ''s'' 0)
          [(''A'', LlmContent ''x'', 1), (''B'', LlmContent ''x'', 2)]) \<le> 3"
proof -
  let ?v = "[(''is_complete'', JBool False)]"
  let ?L = "\<lambda>c :: string. Some (JObject ?v)"
  let ?turns = "[(''A'', LlmContent ''x'', 1), (''B'', LlmContent ''x'', 2 :: nat)]"
  let ?st = "projr (process_turns ?L (new_session ''s'' 0) ?turns)"
  have h1: "process_turns ?L (new_session ''s'' 0) ?turns = Inr ?st"
    by code_simp
  have h2: "map follow_up_count (answers ?st) = [2]" by code_simp
  have h3: "get_current_question ?st = Inr (Some (QUESTIONS ! 0))" by code_simp
  have h4: "find_existing (answers ?st) (category (QUESTIONS ! 0)) = Some 0" by code_simp
  have h5: "2 \<le> follow_up_count (answers ?st ! 0)" by code_simp
  have h6: "validate_answer_completeness ?L (LlmContent ''x'') = JObject ?v"
    by (simp add: validate_answer_completeness_def)
  have h7: "turn_log ?L (new_session ''s'' 0) ?turns = [(0, FollowUp), (0, FollowUp)]"
    by code_simp
  have h8: "(0 :: int) \<le> 0 \<and> (0 :: int) < 8" by simp
  note t = follow_up_ceiling[OF h1, of "QUESTIONS ! 0" 0 "LlmContent ''x''" ?v "''C''" 3 0]
  have adv: "\<exists>r. validate_and_respond ?L ?st ''C'' (LlmContent ''x'') 3 = Inr r
            \<and> r_action r \<noteq> FollowUp
            \<and> current_question_index (r_state r) = current_question_index ?st + 1"
    by (rule t[THEN conjunct2, THEN conjunct1, THEN mp,
          OF conjI[OF h3 conjI[OF h4 conjI[OF h5 h6]]]])
  note cnt = t[THEN conjunct2, THEN conjunct2, THEN conjunct2, THEN mp, OF h8]
  show ?thesis
    by (rule exI[of _ ?st])
       (intro conjI h1 h2 h3 h4 adv h7 cnt[THEN conjunct1] cnt[THEN conjunct2])
qed

text \<open>
  C2. In every state reached by processing turns from a new session the cursor is in
  [0, 8]; a call of the turn controller from such a state changes the cursor by 0 or +1 and
  leaves it in [0, 8]; and over any further sequence of turns the cursor never decreases.
\<close>

theorem index_monotone_bounded:
  assumes "process_turns loads (new_session sid t0) turns = Inr st"
    and "validate_and_respond loads st user_answer out now = Inr r"
    and "process_turns loads st turns' = Inr st'"
  shows "0 \<le> current_question_index st \<and> current_question_index st \<le> 8
       \<and> (current_question_index (r_state r) = current_question_index st
          \<or> current_question_index (r_state r) = current_question_index st + 1)
       \<and> 0 \<le> current_question_index (r_state r) \<and> current_question_index (r_state r) \<le> 8
       \<and> current_question_index st \<le> current_question_index st'
       \<and> current_question_index st' \<le> 8"
proof -
  have inv: "session_inv st" using assms(1) by (rule reachable_inv)
  from validate_and_respond_inv[OF inv assms(2)] process_turns_inv[OF inv assms(3)] inv
  show ?thesis by (auto simp: session_inv_def length_QUESTIONS)
qed

theorem index_monotone_bounded_witness:
  "\<exists>st r st'.
     process_turns (\<lambda>c. None) (new_session ''s'' 0) [(''A'', LlmRaises, 1)] = Inr st
     \<and> validate_and_respond (\<lambda>c. None) st ''B'' LlmRaises 2 = Inr r
     \<and> process_turns (\<lambda>c. None) st [(''B'', LlmRaises, 2), (''C'', LlmRaises, 3)] = Inr st'
     \<and> current_question_index st = 1
     \<and> current_question_index (r_state r) = 2
     \<and> current_question_index st' = 3"
proof -
  let ?L = "\<lambda>c :: string. None :: json option"
  let ?st = "projr (process_turns ?L (new_session ''s'' 0) [(''A'', LlmRaises, 1)])"
  let ?r = "projr (validate_and_respond ?L ?st ''B'' LlmRaises 2)"
  let ?st' = "projr (process_turns ?L ?st [(''B'', LlmRaises, 2), (''C'', LlmRaises, 3)])"
  have h1: "process_turns ?L (new_session ''s'' 0) [(''A'', LlmRaises, 1)] = Inr ?st"
    by (simp add: validate_and_respond_def get_current_question_cases get_or_create_answer_def
          update_answer_def validate_answer_completeness_def default_validation_def
          max_follow_ups_def new_session_def Let_def dict_get_def)
  have h2: "validate_and_respond ?L ?st ''B'' LlmRaises 2 = Inr ?r"
    by (simp add: validate_and_respond_def get_current_question_cases get_or_create_answer_def
          update_answer_def validate_answer_completeness_def default_validation_def
          max_follow_ups_def new_session_def Let_def dict_get_def)
  have h3: "process_turns ?L ?st [(''B'', LlmRaises, 2), (''C'', LlmRaises, 3)] = Inr ?st'"
    by (simp add: validate_and_respond_def get_current_question_cases get_or_create_answer_def
          update_answer_def validate_answer_completeness_def default_validation_def
          max_follow_ups_def new_session_def Let_def dict_get_def)
  have v: "current_question_index ?st = 1 \<and> current_question_index (r_state ?r) = 2
           \<and> current_question_index ?st' = 3"
    by (simp add: validate_and_respond_def get_current_question_cases get_or_create_answer_def
          update_answer_def validate_answer_completeness_def default_validation_def
          max_follow_ups_def new_session_def Let_def dict_get_def)
  from index_monotone_bounded[OF h1 h2 h3] h1 h2 h3 v show ?thesis by blast
qed

text \<open>
  C3. Merging a raw answer for a category that has no record appends exactly one record
  at the end of the answers, with the raw text, follow-up count 0 and not complete; merging
  a second text for that category then extends this record's text by a single space and
  the new text, so that "A" then "B" give one record with text "A B". In general, when a
  record of the category exists, the merge changes the text of the first such record only
  and the number of records stays the same. A merge keeps the categories of the records
  pairwise distinct, and they are pairwise distinct in every state reached by processing
  turns from a new session.
\<close>

theorem merge_answer:
  "(category q \<notin> set (map question_category (answers st)) \<longrightarrow>
      get_or_create_answer st q a now =
        (length (answers st),
         st\<lparr>answers := answers st @
            [\<lparr> question_category = category q, answer_question_text = question_text q,
               answer_text = a, follow_up_count = 0, is_complete = JBool False, timestamp = now \<rparr>]\<rparr>)
      \<and> get_or_create_answer (snd (get_or_create_answer st q a now)) q b now' =
        (length (answers st),
         st\<lparr>answers := answers st @
            [\<lparr> question_category = category q, answer_question_text = question_text q,
               answer_text = a @ '' '' @ b, follow_up_count = 0, is_complete = JBool False,
               timestamp = now \<rparr>]\<rparr>))
   \<and> (find_existing (answers st) (category q) = Some i \<longrightarrow>
      get_or_create_answer st q b now =
        (i, st\<lparr>answers := (answers st)
               [i := (answers st ! i)\<lparr>answer_text := answer_text (answers st ! i) @ '' '' @ b\<rparr>]\<rparr>)
      \<and> length (answers (snd (get_or_create_answer st q b now))) = length (answers st))
   \<and> (distinct (map question_category (answers st)) \<longrightarrow>
      distinct (map question_category (answers (snd (get_or_create_answer st q a now)))))
   \<and> (process_turns loads (new_session sid t0) turns = Inr st \<longrightarrow>
      distinct (map question_category (answers st)))"
proof (intro conjI impI)
  assume fresh: "category q \<notin> set (map question_category (answers st))"
  let ?rec = "\<lparr> question_category = category q, answer_question_text = question_text q,
               answer_text = a, follow_up_count = 0, is_complete = JBool False, timestamp = now \<rparr>"
  show first: "get_or_create_answer st q a now =
      (length (answers st), st\<lparr>answers := answers st @ [?rec]\<rparr>)"
    using fresh by (rule get_or_create_answer_new)
  have "find_existing (answers st @ [?rec]) (category q) = Some (length (answers st))"
    using fresh by (intro find_existing_append_new) simp_all
  then have "get_or_create_answer (st\<lparr>answers := answers st @ [?rec]\<rparr>) q b now' =
      (length (answers st),
       st\<lparr>answers := answers st @ [?rec\<lparr>answer_text := a @ '' '' @ b\<rparr>]\<rparr>)"
    by (simp add: get_or_create_answer_existing)
  then show "get_or_create_answer (snd (get_or_create_answer st q a now)) q b now' =
        (length (answers st),
         st\<lparr>answers := answers st @
            [\<lparr> question_category = category q, answer_question_text = question_text q,
               answer_text = a @ '' '' @ b, follow_up_count = 0, is_complete = JBool False,
               timestamp = now \<rparr>]\<rparr>)"
    by (simp add: first)
next
  assume ex: "find_existing (answers st) (category q) = Some i"
  show e: "get_or_create_answer st q b now =
        (i, st\<lparr>answers := (answers st)
               [i := (answers st ! i)\<lparr>answer_text := answer_text (answers st ! i) @ '' '' @ b\<rparr>]\<rparr>)"
    using ex by (rule get_or_create_answer_existing)
  show "length (answers (snd (get_or_create_answer st q b now))) = length (answers st)"
    by (simp add: e)
next
  assume d: "distinct (map question_category (answers st))"
  show "distinct (map question_category (answers (snd (get_or_create_answer st q a now))))"
  proof (cases "find_existing (answers st) (category q)")
    case None
    then have "category q \<notin> set (map question_category (answers st))"
      using find_existing_None by blast
    then show ?thesis using d by (simp add: get_or_create_answer_new)
  next
    case (Some j)
    then have j: "j < length (answers st)" by (simp add: find_existing_Some)
    have "map question_category ((answers st)
            [j := (answers st ! j)\<lparr>answer_text := answer_text (answers st ! j) @ '' '' @ a\<rparr>])
          = map question_category (answers st)"
      using j by (simp add: map_update list_update_same_conv)
    then show ?thesis using d by (simp add: get_or_create_answer_existing[OF Some])
  qed
next
  assume "process_turns loads (new_session sid t0) turns = Inr st"
  then have "session_inv st" by (rule reachable_inv)
  then show "distinct (map question_category (answers st))"
    by (simp add: session_inv_def answers_ok_def)
qed

theorem merge_answer_witness:
  "get_or_create_answer (new_session ''s'' 0) (QUESTIONS ! 0) ''A'' 1 =
     (0, new_session ''s'' 0\<lparr>answers :=
        [\<lparr> question_category = category (QUESTIONS ! 0),
           answer_question_text = question_text (QUESTIONS ! 0),
           answer_text = ''A'', follow_up_count = 0, is_complete = JBool False, timestamp = 1 \<rparr>]\<rparr>)
   \<and> get_or_create_answer
       (snd (get_or_create_answer (new_session ''s'' 0) (QUESTIONS ! 0) ''A'' 1))
       (QUESTIONS ! 0) ''B'' 2 =
     (0, new_session ''s'' 0\<lparr>answers :=
        [\<lparr> question_category = category (QUESTIONS ! 0),
           answer_question_text = question_text (QUESTIONS ! 0),
           answer_text = ''A B'', follow_up_count = 0, is_complete = JBool False, timestamp = 1 \<rparr>]\<rparr>)
   \<and> length (answers (snd (get_or_create_answer
       (snd (get_or_create_answer (new_session ''s'' 0) (QUESTIONS ! 0) ''A'' 1))
       (QUESTIONS ! 0) ''B'' 2))) = 1
   \<and> distinct (map question_category
       (answers (snd (get_or_create_answer (new_session ''s'' 0) (QUESTIONS ! 0) ''A'' 1))))
   \<and> distinct (map question_category
       (answers (projr (process_turns (\<lambda>c. None) (new_session ''s'' 0)
          [(''A'', LlmRaises, 1), (''B'', LlmRaises, 2)]))))"
proof -
  let ?L = "\<lambda>c :: string. None :: json option"
  let ?q = "QUESTIONS ! 0"
  let ?st = "new_session ''s'' 0"
  let ?st1 = "snd (get_or_create_answer ?st ?q ''A'' 1)"
  let ?turns = "[(''A'', LlmRaises, 1), (''B'', LlmRaises, 2 :: nat)]"
  let ?reached = "projr (process_turns ?L ?st ?turns)"
  have fresh: "category ?q \<notin> set (map question_category (answers ?st))"
    by (simp add: new_session_def)
  have dist: "distinct (map question_category (answers ?st))"
    by (simp add: new_session_def)
  have ex: "find_existing (answers ?st1) (category ?q) = Some 0"
    by (simp add: get_or_create_answer_def new_session_def)
  have run: "process_turns ?L ?st ?turns = Inr ?reached" by code_simp
  note first = merge_answer[of ?q ?st "''A''" 1 "''B''" 2 0 ?L "''s''" 0 "[]",
      THEN conjunct1, THEN mp, OF fresh]
  note second = merge_answer[of ?q ?st1 "''B''" 2 "''B''" 2 0 ?L "''s''" 0 "[]",
      THEN conjunct2, THEN conjunct1, THEN mp, OF ex]
  note third = merge_answer[of ?q ?st "''A''" 1 "''B''" 2 0 ?L "''s''" 0 "[]",
      THEN conjunct2, THEN conjunct2, THEN conjunct1, THEN mp, OF dist]
  note fourth = merge_answer[of ?q ?reached "''A''" 1 "''B''" 2 0 ?L "''s''" 0 ?turns,
      THEN conjunct2, THEN conjunct2, THEN conjunct2, THEN mp, OF run]
  have a: "get_or_create_answer ?st ?q ''A'' 1 =
     (0, ?st\<lparr>answers :=
        [\<lparr> question_category = category ?q, answer_question_text = question_text ?q,
           answer_text = ''A'', follow_up_count = 0, is_complete = JBool False, timestamp = 1 \<rparr>]\<rparr>)"
    using first[THEN conjunct1] by (simp add: new_session_def)
  have b: "get_or_create_answer ?st1 ?q ''B'' 2 =
     (0, ?st\<lparr>answers :=
        [\<lparr> question_category = category ?q, answer_question_text = question_text ?q,
           answer_text = ''A B'', follow_up_count = 0, is_complete = JBool False, timestamp = 1 \<rparr>]\<rparr>)"
    using first[THEN conjunct2] by (simp add: new_session_def)
  have c: "length (answers (snd (get_or_create_answer ?st1 ?q ''B'' 2))) = 1"
    using second[THEN conjunct2] a by simp
  show ?thesis
    by (intro conjI a b c third fourth)
qed

text \<open>
  C4, as amended. When a turn is processed on a question of the catalog, the value the
  oracle's dictionary gives for the verdict is falsy and the merged record has a follow-up
  count below 2, the controller answers with a follow-up: the record's follow-up count
  grows by exactly 1 and its completeness flag is the oracle's value, nothing else differs
  from the state after the merge, and the cursor stays where it was. The message is the
  value the dictionary holds under \<open>follow_up\<close>, passed on as it is, an empty string or
  a null included; the text "Could you tell me more about that?" is the message only when
  the dictionary has no \<open>follow_up\<close> entry.
\<close>

theorem follow_up_turn:
  assumes "get_current_question st = Inr (Some q)"
    and "get_or_create_answer st q user_answer now = (i, st1)"
    and "validate_answer_completeness loads out = JObject d"
    and "\<not> py_truthy (dict_get (map_of d ''is_complete'') (JBool True))"
    and "follow_up_count (answers st1 ! i) < 2"
  shows "\<exists>r. validate_and_respond loads st user_answer out now = Inr r
           \<and> r_action r = FollowUp
           \<and> r_message r = (case map_of d ''follow_up'' of
                               None \<Rightarrow> JString ''Could you tell me more about that?''
                             | Some m \<Rightarrow> m)
           \<and> r_question_category r = Some (category q)
           \<and> current_question_index (r_state r) = current_question_index st
           \<and> is_completed (r_state r) = is_completed st
           \<and> r_state r
               = st1\<lparr>answers := (answers st1)[i := (answers st1 ! i)
                    \<lparr>is_complete := dict_get (map_of d ''is_complete'') (JBool True),
                     follow_up_count := follow_up_count (answers st1 ! i) + 1\<rparr>]\<rparr>
           \<and> follow_up_count (answers (r_state r) ! i) = follow_up_count (answers st1 ! i) + 1"
proof -
  note p = get_or_create_answer_props[OF assms(2)]
  have under: "follow_up_count (answers st1 ! i) < max_follow_ups"
    using assms(5) by (simp add: max_follow_ups_def)
  show ?thesis
    using p(1) p(3) p(4)
    by (simp add: validate_and_respond_follow_up[OF assms(1-4) under] update_answer_def
          dict_get_def)
qed

theorem follow_up_turn_witness:
  "\<exists>r r'. validate_and_respond
          (\<lambda>c. if c = ''x''
                then Some (JObject [(''is_complete'', JBool False), (''missing_points'', JArray [JString ''name'']),
                                    (''follow_up'', JString ''And your name?'')])
                else Some (JObject [(''is_complete'', JBool False)]))
          (new_session ''s'' 0) ''A'' (LlmContent ''x'') 1 = Inr r
       \<and> r_action r = FollowUp
       \<and> r_message r = JString ''And your name?''
       \<and> current_question_index (r_state r) = 0
       \<and> map follow_up_count (answers (r_state r)) = [1]
       \<and> validate_and_respond
          (\<lambda>c. if c = ''x''
                then Some (JObject [(''is_complete'', JBool False), (''missing_points'', JArray [JString ''name'']),
                                    (''follow_up'', JString ''And your name?'')])
                else Some (JObject [(''is_complete'', JBool False)]))
          (new_session ''s'' 0) ''A'' (LlmContent ''y'') 1 = Inr r'
       \<and> r_action r' = FollowUp
       \<and> r_message r' = JString ''Could you tell me more about that?''"
proof -
  let ?d = "[(''is_complete'', JBool False), (''missing_points'', JArray [JString ''name'']),
             (''follow_up'', JString ''And your name?'')]"
  let ?e = "[(''is_complete'', JBool False)]"
  let ?L = "\<lambda>c. if c = ''x'' then Some (JObject ?d) else Some (JObject ?e)"
  let ?g = "get_or_create_answer (new_session ''s'' 0) (QUESTIONS ! 0) ''A'' 1"
  have h1: "get_current_question (new_session ''s'' 0) = Inr (Some (QUESTIONS ! 0))"
    by code_simp
  have h2: "?g = (0, snd ?g)" by code_simp
  have h3: "validate_answer_completeness ?L (LlmContent ''x'') = JObject ?d"
    by (simp add: validate_answer_completeness_def)
  have h3': "validate_answer_completeness ?L (LlmContent ''y'') = JObject ?e"
    by (simp add: validate_answer_completeness_def)
  have h4: "\<not> py_truthy (dict_get (map_of ?d ''is_complete'') (JBool True))"
    by (simp add: dict_get_def)
  have h4': "\<not> py_truthy (dict_get (map_of ?e ''is_complete'') (JBool True))"
    by (simp add: dict_get_def)
  have h5: "follow_up_count (answers (snd ?g) ! 0) < 2" by code_simp
  have a1: "map follow_up_count ((answers (snd ?g))[0 := (answers (snd ?g) ! 0)
              \<lparr>is_complete := dict_get (map_of ?d ''is_complete'') (JBool True),
               follow_up_count := follow_up_count (answers (snd ?g) ! 0) + 1\<rparr>]) = [1]"
    by code_simp
  have i0: "current_question_index (new_session ''s'' 0) = 0" by (simp add: new_session_def)
  from follow_up_turn[OF h1 h2 h3 h4 h5] obtain r where
    r1: "validate_and_respond ?L (new_session ''s'' 0) ''A'' (LlmContent ''x'') 1 = Inr r"
    and r2: "r_action r = FollowUp"
    and r3: "r_message r = (case map_of ?d ''follow_up'' of
                              None \<Rightarrow> JString ''Could you tell me more about that?''
                            | Some m \<Rightarrow> m)"
    and r4: "current_question_index (r_state r) = current_question_index (new_session ''s'' 0)"
    and r5: "r_state r = snd ?g\<lparr>answers := (answers (snd ?g))[0 := (answers (snd ?g) ! 0)
              \<lparr>is_complete := dict_get (map_of ?d ''is_complete'') (JBool True),
               follow_up_count := follow_up_count (answers (snd ?g) ! 0) + 1\<rparr>]\<rparr>"
    by (elim exE conjE)
  from follow_up_turn[OF h1 h2 h3' h4' h5] obtain r' where
    r1': "validate_and_respond ?L (new_session ''s'' 0) ''A'' (LlmContent ''y'') 1 = Inr r'"
    and r2': "r_action r' = FollowUp"
    and r3': "r_message r' = (case map_of ?e ''follow_up'' of
                              None \<Rightarrow> JString ''Could you tell me more about that?''
                            | Some m \<Rightarrow> m)"
    by (elim exE conjE)
  have m: "r_message r = JString ''And your name?''" using r3 by simp
  have m': "r_message r' = JString ''Could you tell me more about that?''" using r3' by simp
  have i: "current_question_index (r_state r) = 0" using r4 i0 by simp
  have f: "map follow_up_count (answers (r_state r)) = [1]" using r5 a1 by simp
  show ?thesis
    by (rule exI[of _ r], rule exI[of _ r']) (intro conjI r1 r2 m i f r1' r2' m')
qed

text \<open>
  C4, as stated, fails when the oracle supplies no follow-up in the way its protocol
  provides for, the empty string, and when it supplies a null: the verdict is incomplete,
  the count is below 2, and the controller's follow-up carries the empty string, or the
  null, as its message and not the fallback text.
\<close>

theorem follow_up_without_text:
  "map_sum id (\<lambda>r. (r_action r, r_message r))
     (validate_and_respond
        (\<lambda>c. Some (JObject [(''is_complete'', JBool False), (''missing_points'', JArray []),
                             (''follow_up'', JString [])]))
        (new_session ''s'' 0) ''A'' (LlmContent ''x'') 1)
     = Inr (FollowUp, JString [])
   \<and> map_sum id (\<lambda>r. (r_action r, r_message r))
     (validate_and_respond
        (\<lambda>c. Some (JObject [(''is_complete'', JBool False), (''missing_points'', JArray []),
                             (''follow_up'', JNull)]))
        (new_session ''s'' 0) ''A'' (LlmContent ''x'') 1)
     = Inr (FollowUp, JNull)
   \<and> JString [] \<noteq> JString ''Could you tell me more about that?''
   \<and> JNull \<noteq> JString ''Could you tell me more about that?''"
  by code_simp

text \<open>
  C5. If the oracle's call fails during a turn on a question of the catalog (the model
  call raises, or the parse of its text raises), the oracle answers with the verdict
  complete, no missing points and an empty follow-up, and the turn completes: the record
  of the question is marked complete, the cursor advances by 1 and no follow-up is asked.
\<close>

theorem oracle_failure_fail_open:
  assumes "get_current_question st = Inr (Some q)"
    and "get_or_create_answer st q user_answer now = (i, st1)"
    and "out = LlmRaises \<or> (\<exists>c. out = LlmContent c \<and> loads c = None)"
  shows "validate_answer_completeness loads out
           = JObject [(''is_complete'', JBool True), (''missing_points'', JArray []),
                      (''follow_up'', JString [])]
       \<and> (\<exists>r. validate_and_respond loads st user_answer out now = Inr r
              \<and> r_action r \<noteq> FollowUp
              \<and> current_question_index (r_state r) = current_question_index st + 1
              \<and> i < length (answers (r_state r))
              \<and> question_category (answers (r_state r) ! i) = category q
              \<and> is_complete (answers (r_state r) ! i) = JBool True)"
proof -
  let ?d = "[(''is_complete'', JBool True), (''missing_points'', JArray []),
             (''follow_up'', JString [])]"
  have v: "validate_answer_completeness loads out = JObject ?d"
    using validate_answer_completeness_failure[OF assms(3)] by (simp add: default_validation_def)
  have g: "dict_get (map_of ?d ''is_complete'') (JBool True) = JBool True"
    by (simp add: dict_get_def)
  then have "py_truthy (dict_get (map_of ?d ''is_complete'') (JBool True))" by simp
  from advance_marks_complete[OF assms(1,2) v this] v show ?thesis
    unfolding g by simp
qed

theorem oracle_failure_fail_open_witness:
  "\<exists>r. validate_and_respond (\<lambda>c. None) (new_session ''s'' 0) ''A'' (LlmContent ''not json'') 1
          = Inr r
       \<and> r_action r = NextQuestion
       \<and> current_question_index (r_state r) = 1
       \<and> map is_complete (answers (r_state r)) = [JBool True]"
proof -
  let ?L = "\<lambda>c :: string. None :: json option"
  let ?g = "get_or_create_answer (new_session ''s'' 0) (QUESTIONS ! 0) ''A'' 1"
  let ?r = "projr (validate_and_respond ?L (new_session ''s'' 0) ''A'' (LlmContent ''not json'') 1)"
  have h1: "get_current_question (new_session ''s'' 0) = Inr (Some (QUESTIONS ! 0))"
    by code_simp
  have h2: "?g = (0, snd ?g)" by code_simp
  have h3: "LlmContent ''not json'' = LlmRaises
              \<or> (\<exists>c. LlmContent ''not json'' = LlmContent c \<and> ?L c = None)"
    by simp
  from oracle_failure_fail_open[OF h1 h2 h3, THEN conjunct2] obtain r where
    r1: "validate_and_respond ?L (new_session ''s'' 0) ''A'' (LlmContent ''not json'') 1 = Inr r"
    and r2: "current_question_index (r_state r)
               = current_question_index (new_session ''s'' 0) + 1"
    by (elim exE conjE)
  have e: "validate_and_respond ?L (new_session ''s'' 0) ''A'' (LlmContent ''not json'') 1 = Inr ?r"
    by code_simp
  have rr: "r = ?r" using r1 e by simp
  have a: "r_action ?r = NextQuestion" by code_simp
  have i: "current_question_index (r_state ?r) = 1" by code_simp
  have c: "map is_complete (answers (r_state ?r)) = [JBool True]" by code_simp
  show ?thesis
    by (rule exI[of _ r]) (intro conjI r1 a[folded rr] i[folded rr] c[folded rr])
qed






text \<open>
  C8. When an answer is processed in a state, reached by processing turns from a new
  session, in which the lookup for the current index returns none, the controller goes
  directly to completion: it emits the complete action and returns the state it received,
  which is completed (the completion flag is set, the cursor is at the end of the catalog);
  the answer is not merged and the cursor is not advanced.
\<close>

theorem lookup_none_completes:
  assumes "process_turns loads (new_session sid t0) turns = Inr st"
    and "get_current_question st = Inr None"
  shows "(\<exists>r. validate_and_respond loads' st user_answer out now = Inr r
            \<and> r_action r = Complete
            \<and> r_message r = JString ''Thank you for completing all the questions!''
            \<and> r_state r = st
            \<and> is_completed (r_state r)
            \<and> answers (r_state r) = answers st
            \<and> current_question_index (r_state r) = current_question_index st)
       \<and> is_completed st
       \<and> current_question_index st = 8"
proof -
  have inv: "session_inv st" using assms(1) by (rule reachable_inv)
  have "8 \<le> current_question_index st"
    using assms(2) by (auto simp: get_current_question_cases split: if_splits)
  with inv have "is_completed st" "current_question_index st = 8"
    by (simp_all add: session_inv_def length_QUESTIONS)
  then show ?thesis by (simp add: validate_and_respond_def assms(2))
qed

theorem lookup_none_completes_witness:
  "\<exists>st. process_turns (\<lambda>c. None) (new_session ''s'' 0)
            [(''answer 1'', LlmRaises, 1), (''answer 2'', LlmRaises, 2), (''answer 3'', LlmRaises, 3),
             (''answer 4'', LlmRaises, 4), (''answer 5'', LlmRaises, 5), (''answer 6'', LlmRaises, 6),
             (''answer 7'', LlmRaises, 7), (''answer 8'', LlmRaises, 8)] = Inr st
     \<and> get_current_question st = Inr None
     \<and> (\<exists>r. validate_and_respond (\<lambda>c. None) st ''answer 9'' LlmRaises 9 = Inr r
            \<and> r_action r = Complete
            \<and> r_state r = st
            \<and> is_completed (r_state r))
     \<and> map answer_text (answers st) = [''answer 1'', ''answer 2'', ''answer 3'', ''answer 4'', ''answer 5'', ''answer 6'', ''answer 7'', ''answer 8'']"
proof -
  let ?L = "\<lambda>c :: string. None :: json option"
  let ?turns = "[(''answer 1'', LlmRaises, 1), (''answer 2'', LlmRaises, 2), (''answer 3'', LlmRaises, 3),
             (''answer 4'', LlmRaises, 4), (''answer 5'', LlmRaises, 5), (''answer 6'', LlmRaises, 6),
             (''answer 7'', LlmRaises, 7), (''answer 8'', LlmRaises, 8 :: nat)]"
  let ?st = "projr (process_turns ?L (new_session ''s'' 0) ?turns)"
  have h1: "process_turns ?L (new_session ''s'' 0) ?turns = Inr ?st" by code_simp
  have h2: "get_current_question ?st = Inr None" by code_simp
  have h3: "map answer_text (answers ?st) = [''answer 1'', ''answer 2'', ''answer 3'', ''answer 4'', ''answer 5'', ''answer 6'', ''answer 7'', ''answer 8'']"
    by code_simp
  from lookup_none_completes[OF h1 h2, of ?L "''answer 9''" LlmRaises 9, THEN conjunct1]
  obtain r where r1: "validate_and_respond ?L ?st ''answer 9'' LlmRaises 9 = Inr r"
    and r2: "r_action r = Complete"
    and r3: "r_state r = ?st"
    and r4: "is_completed (r_state r)"
    by (elim exE conjE)
  have inner: "\<exists>r. validate_and_respond ?L ?st ''answer 9'' LlmRaises 9 = Inr r
            \<and> r_action r = Complete \<and> r_state r = ?st \<and> is_completed (r_state r)"
    by (rule exI[of _ r]) (intro conjI r1 r2 r3 r4)
  show ?thesis
    by (rule exI[of _ ?st]) (intro conjI h1 h2 inner h3)
qed

text \<open>
  C9, as amended. The catalog has exactly 8 questions, one per category, in the order
  introduction, motivation, industry experience, learnings, strengths/weaknesses, future
  vision, unique value, availability. The lookup returns none for every index from 8 on
  and the question at position i for 0 <= i < 8. A negative index is not out of range for
  the lookup: for -8 <= i < 0 it returns the question at position 8 + i, counted from the
  end, and below -8 the list subscript raises IndexError.
\<close>

theorem catalog_lookup:
  "length QUESTIONS = 8
   \<and> map category QUESTIONS =
       [INTRODUCTION, MOTIVATION, INDUSTRY_EXPERIENCE, LEARNINGS, STRENGTHS_WEAKNESSES,
        FUTURE_VISION, UNIQUE_VALUE, AVAILABILITY]
   \<and> get_current_question st =
       (if 8 \<le> current_question_index st then Inr None
        else if 0 \<le> current_question_index st
          then Inr (Some (QUESTIONS ! nat (current_question_index st)))
        else if - 8 \<le> current_question_index st
          then Inr (Some (QUESTIONS ! nat (8 + current_question_index st)))
        else Inl IndexError)"
  using length_QUESTIONS categories_QUESTIONS get_current_question_cases by simp

theorem catalog_lookup_witness:
  "get_current_question (new_session ''s'' 0\<lparr>current_question_index := 3\<rparr>)
     = Inr (Some (QUESTIONS ! 3))
   \<and> get_current_question (new_session ''s'' 0\<lparr>current_question_index := 8\<rparr>) = Inr None
   \<and> get_current_question (new_session ''s'' 0\<lparr>current_question_index := - 9\<rparr>)
     = Inl IndexError"
  using catalog_lookup[of "new_session ''s'' 0\<lparr>current_question_index := 3\<rparr>"]
    catalog_lookup[of "new_session ''s'' 0\<lparr>current_question_index := 8\<rparr>"]
    catalog_lookup[of "new_session ''s'' 0\<lparr>current_question_index := - 9\<rparr>"]
  by (simp add: new_session_def)

text \<open>
  C9, as stated, fails at index -1: the lookup does not return none there but the last
  question of the catalog, the one on availability.
\<close>

theorem catalog_lookup_negative_index:
  "get_current_question
     \<lparr> session_id = ''s'', current_question_index = - 1, answers = [], is_completed = False,
       started_at = 0, completed_at = None \<rparr> \<noteq> Inr None
   \<and> map_sum id (map_option category)
       (get_current_question
          \<lparr> session_id = ''s'', current_question_index = - 1, answers = [], is_completed = False,
            started_at = 0, completed_at = None \<rparr>) = Inr (Some AVAILABILITY)"
  by (simp add: get_current_question_def list_getitem_def QUESTIONS_def)

text \<open>
  C10. If the oracle's call succeeds and the parsed dictionary has no entry for the
  verdict, the verdict defaults to complete: on a question of the catalog the record is
  marked complete and the cursor advances by 1, and the whole result of the turn is the one
  the same dictionary with the verdict complete would have given.
\<close>

theorem missing_verdict_defaults_complete:
  assumes "get_current_question st = Inr (Some q)"
    and "get_or_create_answer st q user_answer now = (i, st1)"
    and "validate_answer_completeness loads out = JObject d"
    and "map_of d ''is_complete'' = None"
    and "validate_answer_completeness loads out' = JObject ((''is_complete'', JBool True) # d)"
  shows "validate_and_respond loads st user_answer out now
           = validate_and_respond loads st user_answer out' now
       \<and> (\<exists>r. validate_and_respond loads st user_answer out now = Inr r
              \<and> r_action r \<noteq> FollowUp
              \<and> current_question_index (r_state r) = current_question_index st + 1
              \<and> i < length (answers (r_state r))
              \<and> question_category (answers (r_state r) ! i) = category q
              \<and> is_complete (answers (r_state r) ! i) = JBool True)"
proof -
  have same: "validate_and_respond loads st user_answer out now
                = validate_and_respond loads st user_answer out' now"
    by (simp add: validate_and_respond_def assms Let_def dict_get_def)
  have g: "dict_get (map_of d ''is_complete'') (JBool True) = JBool True"
    by (simp add: assms(4) dict_get_def)
  then have "py_truthy (dict_get (map_of d ''is_complete'') (JBool True))" by simp
  from advance_marks_complete[OF assms(1,2,3) this] same show ?thesis
    unfolding g by simp
qed

theorem missing_verdict_defaults_complete_witness:
  "\<exists>r. validate_and_respond
          (\<lambda>c. if c = ''{}'' then Some (JObject []) else Some (JObject [(''is_complete'', JBool True)]))
          (new_session ''s'' 0) ''A'' (LlmContent ''{}'') 1 = Inr r
       \<and> validate_and_respond
          (\<lambda>c. if c = ''{}'' then Some (JObject []) else Some (JObject [(''is_complete'', JBool True)]))
          (new_session ''s'' 0) ''A'' (LlmContent ''yes'') 1 = Inr r
       \<and> r_action r \<noteq> FollowUp
       \<and> current_question_index (r_state r) = current_question_index (new_session ''s'' 0) + 1
       \<and> is_complete (answers (r_state r) ! 0) = JBool True"
proof -
  let ?L = "\<lambda>c. if c = ''{}'' then Some (JObject [])
                else Some (JObject [(''is_complete'', JBool True)])"
  let ?g = "get_or_create_answer (new_session ''s'' 0) (QUESTIONS ! 0) ''A'' 1"
  have h1: "get_current_question (new_session ''s'' 0) = Inr (Some (QUESTIONS ! 0))"
    by code_simp
  have h2: "?g = (0, snd ?g)" by code_simp
  have h3: "validate_answer_completeness ?L (LlmContent ''{}'') = JObject []"
    by (simp add: validate_answer_completeness_def)
  have h4: "map_of ([] :: (string \<times> json) list) ''is_complete'' = None" by simp
  have h5: "validate_answer_completeness ?L (LlmContent ''yes'')
              = JObject ((''is_complete'', JBool True) # [])"
    by (simp add: validate_answer_completeness_def)
  note t = missing_verdict_defaults_complete[OF h1 h2 h3 h4 h5]
  from t[THEN conjunct2] obtain r where
    r1: "validate_and_respond ?L (new_session ''s'' 0) ''A'' (LlmContent ''{}'') 1 = Inr r"
    and r2: "r_action r \<noteq> FollowUp"
    and r3: "current_question_index (r_state r)
               = current_question_index (new_session ''s'' 0) + 1"
    and r4: "is_complete (answers (r_state r) ! 0) = JBool True"
    by (elim exE conjE)
  have r1': "validate_and_respond ?L (new_session ''s'' 0) ''A'' (LlmContent ''yes'') 1 = Inr r"
    using t[THEN conjunct1] r1 by simp
  show ?thesis
    by (rule exI[of _ r]) (intro conjI r1 r1' r2 r3 r4)
qed

end
